theory Spec2Isabelle
  imports Complex_Main
begin

section \<open>Python values used by the three components\<close>

text \<open>
  Exceptions are values. Only the classes the code can tell apart are kept separate:
  \<^verbatim>\<open>except TypeError\<close> is tested before \<^verbatim>\<open>except Exception\<close> in the run loop.
\<close>

datatype exn = IndexError | TypeError | ValueError | OverflowError | OtherError

definition then_do :: "exn + 'a \<Rightarrow> ('a \<Rightarrow> exn + 'b) \<Rightarrow> exn + 'b" where
  "then_do r f = (case r of Inl e \<Rightarrow> Inl e | Inr x \<Rightarrow> f x)"

text \<open>\<^verbatim>\<open>str(n)\<close> for an integer: decimal digits, a minus sign for negatives.\<close>

fun digits10 :: "nat \<Rightarrow> string" where
  "digits10 n =
     (if n < 10 then [''0123456789'' ! n]
      else digits10 (n div 10) @ [''0123456789'' ! (n mod 10)])"

definition str_int :: "int \<Rightarrow> string" where
  "str_int i = (if i < 0 then ''-'' @ digits10 (nat (- i)) else digits10 (nat i))"

text \<open>\<^verbatim>\<open>sep.join(parts)\<close>.\<close>

fun join :: "string \<Rightarrow> string list \<Rightarrow> string" where
  "join sep [] = []"
| "join sep [x] = x"
| "join sep (x # y # ys) = x @ sep @ join sep (y # ys)"

text \<open>\<^verbatim>\<open>hay.startswith(needle)\<close> and \<^verbatim>\<open>needle in hay\<close> on strings.\<close>

definition startswith :: "string \<Rightarrow> string \<Rightarrow> bool" where
  "startswith hay needle = (take (length needle) hay = needle)"

fun contains :: "string \<Rightarrow> string \<Rightarrow> bool" where
  "contains needle [] = (needle = [])"
| "contains needle (c # cs) = (startswith (c # cs) needle \<or> contains needle cs)"

text \<open>
  A bounded \<^verbatim>\<open>deque(maxlen=n)\<close> is a list, oldest entry first; \<^verbatim>\<open>append\<close> on a
  full deque discards from the left.
\<close>

definition deque_append :: "nat \<Rightarrow> 'a \<Rightarrow> 'a list \<Rightarrow> 'a list" where
  "deque_append maxlen x q = (let r = q @ [x] in drop (length r - maxlen) r)"

subsection \<open>Floats\<close>

text \<open>
  A Python float is an IEEE 754 double: a finite value is the real number it denotes, and
  comparisons with NaN are false.
\<close>

datatype pyfloat = Finite real | PosInf | NegInf | NaN

definition float_gt :: "pyfloat \<Rightarrow> real \<Rightarrow> bool" where
  "float_gt x r = (case x of Finite v \<Rightarrow> v > r | PosInf \<Rightarrow> True | NegInf \<Rightarrow> False | NaN \<Rightarrow> False)"

definition float_lt :: "pyfloat \<Rightarrow> real \<Rightarrow> bool" where
  "float_lt x r = (case x of Finite v \<Rightarrow> v < r | PosInf \<Rightarrow> False | NegInf \<Rightarrow> True | NaN \<Rightarrow> False)"

text \<open>
  Rounding a real number to the nearest double, ties to the even significand. The
  exponent \<open>e\<close> of a positive number is found by halving it down to below 2 or doubling
  it up to 1; it is not taken below -1022, where the subnormal numbers share one spacing.
  The doubles of exponent \<open>e\<close> are the multiples \<open>m * 2^(e - 52)\<close> with \<open>m\<close> up to
  \<open>2^53\<close>; the largest finite one has exponent 1023 and \<open>m = 2^53 - 1\<close>, and rounding
  beyond it gives an infinity.
\<close>

fun halvings :: "nat \<Rightarrow> real \<Rightarrow> int" where
  "halvings 0 x = 0"
| "halvings (Suc k) x = (if 2 \<le> x then 1 + halvings k (x / 2) else 0)"

fun doublings :: "nat \<Rightarrow> real \<Rightarrow> int" where
  "doublings 0 x = 0"
| "doublings (Suc k) x = (if x < 1 then 1 + doublings k (2 * x) else 0)"

definition binade :: "real \<Rightarrow> int" where
  "binade a = (if 1 \<le> a then halvings 1024 a else - doublings 1022 a)"

definition round_half_even :: "real \<Rightarrow> int" where
  "round_half_even q =
     (let f = \<lfloor>q\<rfloor>; r = q - of_int f
      in if r < 1 / 2 then f else if 1 / 2 < r then f + 1 else if even f then f else f + 1)"

text \<open>
  The double with sign \<open>pos\<close>, significand \<open>m\<close> and exponent \<open>e\<close>, and the double
  nearest to the positive number \<open>a\<close> of exponent \<open>e\<close>.
\<close>

definition double_of :: "bool \<Rightarrow> int \<Rightarrow> int \<Rightarrow> pyfloat" where
  "double_of pos m e =
     (if 1024 \<le> e \<or> (e = 1023 \<and> 2 ^ 53 \<le> m) then (if pos then PosInf else NegInf)
      else Finite (if pos then of_int m * 2 powi (e - 52) else - (of_int m * 2 powi (e - 52))))"

definition nearest_at :: "bool \<Rightarrow> real \<Rightarrow> int \<Rightarrow> pyfloat" where
  "nearest_at pos a e = double_of pos (round_half_even (a / 2 powi (e - 52))) e"

definition to_double :: "real \<Rightarrow> pyfloat" where
  "to_double x = (if x = 0 then Finite 0 else nearest_at (0 < x) \<bar>x\<bar> (binade \<bar>x\<bar>))"

text \<open>
  \<^verbatim>\<open>t + n\<close> for a finite float \<open>t\<close> and an integer \<open>n\<close>: the integer is converted
  to the nearest double, which raises OverflowError when that is no finite double, and
  the sum of the two doubles is rounded to a double again.
\<close>

definition float_add_int :: "real \<Rightarrow> int \<Rightarrow> exn + pyfloat" where
  "float_add_int t n =
     (case to_double (of_int n) of
        Finite v \<Rightarrow> Inr (to_double (t + v))
      | _ \<Rightarrow> Inl OverflowError)"

text \<open>\<^verbatim>\<open>t >= d\<close> for a finite float \<open>t\<close>, and the truth value of a float.\<close>

definition float_reached :: "real \<Rightarrow> pyfloat \<Rightarrow> bool" where
  "float_reached t d =
     (case d of Finite v \<Rightarrow> v \<le> t | PosInf \<Rightarrow> False | NegInf \<Rightarrow> True | NaN \<Rightarrow> False)"

definition float_truth :: "pyfloat \<Rightarrow> bool" where
  "float_truth d = (case d of Finite v \<Rightarrow> v \<noteq> 0 | _ \<Rightarrow> True)"

section \<open>The countdown timer (utils/timer.py)\<close>

text \<open>
  \<^verbatim>\<open>PomodoroTimer\<close> keeps two flags, the seconds left and the phase name, and runs
  \<^verbatim>\<open>_run\<close> on a background thread. The phase is one of the strings
  \<^verbatim>\<open>"idle"\<close>, \<^verbatim>\<open>"work"\<close>, \<^verbatim>\<open>"break"\<close>.
\<close>

datatype phase = Idle | Work | Break

text \<open>
  The three callbacks only observe the timer. A call of \<^verbatim>\<open>on_tick(remaining, phase)\<close>,
  \<^verbatim>\<open>on_phase(phase)\<close> or \<^verbatim>\<open>on_done()\<close> is recorded as a notification.
\<close>

datatype event = Tick int phase | PhaseStart phase | Done

text \<open>
  Where the background thread stands whenever the main thread can act: started but not
  yet inside \<^verbatim>\<open>_run\<close>, asleep in \<^verbatim>\<open>time.sleep(1)\<close> inside the countdown of phase
  \<open>ph\<close> of iteration \<open>c\<close> of the \<^verbatim>\<open>for\<close> loop, or returned (no longer alive).
\<close>

datatype pc = Fresh | Asleep int phase | Finished

record worker =
  work_s :: int
  break_s :: int
  cycles :: int
  pc :: pc

text \<open>
  The object's fields. \<open>on_tick\<close>, \<open>on_phase\<close> and \<open>on_done\<close> say whether a callback
  was given (the code tests each before calling it); \<open>notified\<close> lists the callback
  invocations made so far, oldest first.
\<close>

record timer =
  f_t :: "worker option"
  f_stop :: bool
  f_paused :: bool
  on_tick :: bool
  on_phase :: bool
  on_done :: bool
  f_remaining :: int
  f_phase :: phase
  notified :: "event list"

definition init :: "bool \<Rightarrow> bool \<Rightarrow> bool \<Rightarrow> timer" where
  "init tick_cb phase_cb done_cb =
     \<lparr>f_t = None, f_stop = False, f_paused = False,
      on_tick = tick_cb, on_phase = phase_cb, on_done = done_cb,
      f_remaining = 0, f_phase = Idle, notified = []\<rparr>"

definition is_running :: "timer \<Rightarrow> bool" where
  "is_running s = (case f_t s of None \<Rightarrow> False | Some w \<Rightarrow> pc w \<noteq> Finished)"

definition start :: "int \<Rightarrow> int \<Rightarrow> int \<Rightarrow> timer \<Rightarrow> bool \<times> timer" where
  "start work_min break_min n s =
     (if is_running s then (False, s)
      else (True, s\<lparr>f_stop := False, f_paused := False,
                    f_t := Some \<lparr>work_s = work_min * 60, break_s = break_min * 60,
                                cycles = n, pc = Fresh\<rparr>\<rparr>))"

definition pause :: "timer \<Rightarrow> timer" where
  "pause s = s\<lparr>f_paused := True\<rparr>"

definition resume :: "timer \<Rightarrow> timer" where
  "resume s = s\<lparr>f_paused := False\<rparr>"

definition stop :: "timer \<Rightarrow> timer" where
  "stop s = s\<lparr>f_stop := True\<rparr>"

record status_view =
  st_phase :: phase
  st_remaining :: int
  st_running :: bool
  st_paused :: bool

definition status :: "timer \<Rightarrow> status_view" where
  "status s = \<lparr>st_phase = f_phase s, st_remaining = f_remaining s,
               st_running = is_running s, st_paused = f_paused s\<rparr>"

definition notify :: "bool \<Rightarrow> event \<Rightarrow> timer \<Rightarrow> timer" where
  "notify cb e s = (if cb then s\<lparr>notified := notified s @ [e]\<rparr> else s)"

subsection \<open>The countdown loop\<close>

text \<open>
  One pass of \<^verbatim>\<open>while self._remaining > 0\<close> from its test: the loop either reaches
  \<^verbatim>\<open>time.sleep(1)\<close> or leaves \<^verbatim>\<open>_countdown\<close> with a return value.
\<close>

datatype outcome = Sleep | Return bool

definition loop_pass :: "timer \<Rightarrow> outcome \<times> timer" where
  "loop_pass s =
     (if f_remaining s > 0 then
        (if f_stop s then (Return False, s\<lparr>f_phase := Idle\<rparr>)
         else if \<not> f_paused s then
           (let s1 = s\<lparr>f_remaining := f_remaining s - 1\<rparr>
            in (Sleep, notify (on_tick s1) (Tick (f_remaining s1) (f_phase s1)) s1))
         else (Sleep, s))
      else (Return True, s))"

text \<open>\<^verbatim>\<open>_countdown(seconds, phase)\<close> from its first line up to the first sleep or the return.\<close>

definition countdown :: "int \<Rightarrow> phase \<Rightarrow> timer \<Rightarrow> outcome \<times> timer" where
  "countdown seconds ph s =
     (let s1 = s\<lparr>f_phase := ph\<rparr>;
          s2 = notify (on_phase s1) (PhaseStart ph) s1;
          s3 = s2\<lparr>f_remaining := seconds\<rparr>
      in loop_pass s3)"

subsection \<open>The cycle loop\<close>

text \<open>
  \<^verbatim>\<open>_run\<close> resumes either at the \<^verbatim>\<open>for\<close> statement, about to take iteration \<open>c\<close>
  of \<^verbatim>\<open>range(cycles)\<close>, or after the work countdown of iteration \<open>c\<close> has returned
  true (the test \<^verbatim>\<open>c < cycles-1\<close>). It runs until a countdown sleeps or the thread ends.
\<close>

datatype resume_point = ForNext int | AfterWork int

function run_from :: "worker \<Rightarrow> resume_point \<Rightarrow> timer \<Rightarrow> pc \<times> timer" where
  "run_from w (ForNext c) s =
     (if c < cycles w then
        (case countdown (work_s w) Work s of
           (Sleep, s1) \<Rightarrow> (Asleep c Work, s1)
         | (Return False, s1) \<Rightarrow> (Finished, s1)
         | (Return True, s1) \<Rightarrow> run_from w (AfterWork c) s1)
      else (Finished, notify (on_done s) Done s))"
| "run_from w (AfterWork c) s =
     (if c < cycles w - 1 then
        (case countdown (break_s w) Break s of
           (Sleep, s1) \<Rightarrow> (Asleep c Break, s1)
         | (Return False, s1) \<Rightarrow> (Finished, s1)
         | (Return True, s1) \<Rightarrow> run_from w (ForNext (c + 1)) s1)
      else run_from w (ForNext (c + 1)) s)"
  by pat_completeness auto
termination
  by (relation "measure (\<lambda>(w, r, s). case r of
         ForNext c \<Rightarrow> (if c < cycles w then 2 * nat (cycles w - c) + 2 else 0)
       | AfterWork c \<Rightarrow> 2 * nat (cycles w - c) + 1)") auto

text \<open>
  One scheduling step of the background thread: it runs from where it stands to its next
  sleep or to its end. The main thread's calls (\<open>start\<close>, \<open>pause\<close>, \<open>resume\<close>, \<open>stop\<close>)
  fall between such steps; the thread reads each flag at most once per step.
\<close>

definition wake :: "timer \<Rightarrow> timer" where
  "wake s =
     (case f_t s of
        None \<Rightarrow> s
      | Some w \<Rightarrow>
          (case pc w of
             Finished \<Rightarrow> s
           | Fresh \<Rightarrow>
               (let (p, s1) = run_from w (ForNext 0) s in s1\<lparr>f_t := Some (w\<lparr>pc := p\<rparr>)\<rparr>)
           | Asleep c ph \<Rightarrow>
               (let (p, s1) =
                  (case loop_pass s of
                     (Sleep, s1) \<Rightarrow> (Asleep c ph, s1)
                   | (Return False, s1) \<Rightarrow> (Finished, s1)
                   | (Return True, s1) \<Rightarrow>
                       run_from w (if ph = Work then AfterWork c else ForNext (c + 1)) s1)
                in s1\<lparr>f_t := Some (w\<lparr>pc := p\<rparr>)\<rparr>)))"

text \<open>A history of the timer: calls of the main thread and steps of the background thread.\<close>

datatype action = Start int int int | Pause | Resume | Stop | Wake

fun act :: "action \<Rightarrow> timer \<Rightarrow> timer" where
  "act (Start w b n) s = snd (start w b n s)"
| "act Pause s = pause s"
| "act Resume s = resume s"
| "act Stop s = stop s"
| "act Wake s = wake s"

fun exec :: "action list \<Rightarrow> timer \<Rightarrow> timer" where
  "exec [] s = s"
| "exec (a # as) s = exec as (act a s)"

text \<open>
  The state \<^verbatim>\<open>start(1, 1, n)\<close> reaches after sixty seconds without interference,
  on a timer with all three callbacks: the work phase has counted down to 0 and the
  thread is in its last sleep of that phase.
\<close>

definition work_elapsed :: "int \<Rightarrow> timer" where
  "work_elapsed n = exec (Start 1 1 n # replicate 60 Wake) (init True True True)"

definition is_tick :: "event \<Rightarrow> bool" where
  "is_tick e = (case e of Tick _ _ \<Rightarrow> True | _ \<Rightarrow> False)"

definition ticks :: "event list \<Rightarrow> event list" where
  "ticks es = filter is_tick es"

text \<open>The thread sleeps inside a countdown that still has seconds left.\<close>

definition mid_phase :: "timer \<Rightarrow> bool" where
  "mid_phase s =
     (case f_t s of
        None \<Rightarrow> False
      | Some w \<Rightarrow> (case pc w of Asleep c ph \<Rightarrow> 0 < f_remaining s | _ \<Rightarrow> False))"

text \<open>
  The timer after a step of the thread that ended at the position and in the state given.
\<close>

definition settle :: "worker \<Rightarrow> pc \<times> timer \<Rightarrow> timer" where
  "settle w r = (snd r)\<lparr>f_t := Some (w\<lparr>pc := fst r\<rparr>)\<rparr>"

text \<open>
  Nobody has asked the run to stop or pause, and the phase and completion callbacks are
  registered.
\<close>

definition undisturbed :: "timer \<Rightarrow> bool" where
  "undisturbed s = (\<not> f_stop s \<and> \<not> f_paused s \<and> on_phase s \<and> on_done s)"

text \<open>The notifications other than ticks: phase starts and the completion.\<close>

definition phase_notes :: "event list \<Rightarrow> event list" where
  "phase_notes es = filter (\<lambda>e. \<not> is_tick e) es"

text \<open>
  State \<open>s'\<close> is undisturbed, in phase \<open>ph\<close>, and has notified \<open>es\<close> more than \<open>s\<close>,
  ticks aside.
\<close>

definition advanced :: "timer \<Rightarrow> phase \<Rightarrow> event list \<Rightarrow> timer \<Rightarrow> bool" where
  "advanced s ph es s' =
     (undisturbed s' \<and> f_phase s' = ph
      \<and> phase_notes (notified s') = phase_notes (notified s) @ es)"

text \<open>The thread has been started and has returned.\<close>

definition finished :: "timer \<Rightarrow> bool" where
  "finished s = (case f_t s of None \<Rightarrow> False | Some w \<Rightarrow> pc w = Finished)"

text \<open>
  Where \<^verbatim>\<open>_run\<close> goes on when the countdown of phase \<open>ph\<close> of iteration \<open>c\<close>
  returns true.
\<close>

definition next_point :: "int \<Rightarrow> phase \<Rightarrow> resume_point" where
  "next_point c ph = (if ph = Work then AfterWork c else ForNext (c + 1))"

text \<open>
  The notifications, ticks aside, that \<open>m\<close> more iterations of the \<^verbatim>\<open>for\<close> loop
  are to give.
\<close>

fun expected_notes :: "nat \<Rightarrow> event list" where
  "expected_notes 0 = [Done]"
| "expected_notes (Suc m) =
     PhaseStart Work # (if m = 0 then [] else [PhaseStart Break]) @ expected_notes m"

text \<open>The run that stood at \<open>s\<close> with \<open>m\<close> iterations to go has ended at \<open>s'\<close>.\<close>

definition finished_with :: "timer \<Rightarrow> nat \<Rightarrow> timer \<Rightarrow> bool" where
  "finished_with s m s' =
     (finished s' \<and> phase_notes (notified s') = phase_notes (notified s) @ expected_notes m
      \<and> f_phase s' = (if m = 0 then f_phase s else Work))"

section \<open>The phrase synthesizer (utils/phrases.py)\<close>

text \<open>
  The fragments are Python strings that are only concatenated and compared. The one
  character outside ASCII in them, the apostrophe U+2019, is written as its three UTF-8
  bytes; everything else is one \<open>char\<close> per character.
\<close>

definition rsquo :: string where
  "rsquo = [CHR 0xE2, CHR 0x80, CHR 0x99]"

definition RECENT_MAXLEN :: nat where
  "RECENT_MAXLEN = 24"

text \<open>\<^verbatim>\<open>_RECENT\<close> is passed in and returned: the module's memory, oldest phrase first.\<close>

definition novel :: "string \<Rightarrow> string list \<Rightarrow> bool" where
  "novel line recent = (line \<notin> set recent)"

definition remember :: "string \<Rightarrow> string list \<Rightarrow> string list" where
  "remember line recent = deque_append RECENT_MAXLEN line recent"

definition OPENERS :: "string \<rightharpoonup> string list" where
  "OPENERS =
     [''morning'' \<mapsto> [''Good morning'', ''Fresh start'', ''New day energy''],
      ''afternoon'' \<mapsto> [''Good afternoon'', ''Midday momentum'', ''Keeping pace''],
      ''evening'' \<mapsto> [''Good evening'', ''Winding down with focus'', ''Evening clarity''],
      ''night'' \<mapsto> [''Late but steady'', ''Quiet hours focus'', ''Night mode'']]"

definition HAPPY :: "string list" where
  "HAPPY = [''Love that vibe'', ''That smile suits you'', ''Nice energy'',
            ''Mood looks great'', ''Looking upbeat'']"

definition SURPRISED :: "string list" where
  "SURPRISED = [''Something unexpected?'', ''Caught off guard?'', ''Surprise face, huh?'']"

definition ANGRY :: "string list" where
  "ANGRY = [''Anger is just energy'', ''Strong focus incoming'',
            ''Let'' @ rsquo @ ''s channel it'']"

definition SAD :: "string list" where
  "SAD = [''Let'' @ rsquo @ ''s keep it gentle'', ''Small steps still count'',
          ''Steady and kind'']"

definition NEUTRAL :: "string list" where
  "NEUTRAL = [''Ready when you are'', ''Calm and focused'', ''I'' @ rsquo @ ''m with you'']"

definition ACTIONS :: "string list" where
  "ACTIONS = [''Want a {len}-minute focus block?'',
              ''Shall I set a {len}-minute timer?'',
              ''How about a tiny next step?'',
              ''Want a two-minute micro-plan?'',
              ''Prefer a quick summary of today?'']"

text \<open>\<^verbatim>\<open>TAILS_PEOPLE\<close> has the keys \<^verbatim>\<open>0\<close>, \<^verbatim>\<open>1\<close> and \<^verbatim>\<open>"many"\<close>.\<close>

definition TAILS_PEOPLE_0 :: "string list" where
  "TAILS_PEOPLE_0 = [''It'' @ rsquo @ ''s just us here.'', ''Room is all yours.'']"

definition TAILS_PEOPLE_1 :: "string list" where
  "TAILS_PEOPLE_1 = [''Looks like there'' @ rsquo @ ''s someone with you.'',
                     ''Seems you'' @ rsquo @ ''re not alone.'']"

definition TAILS_PEOPLE_many :: "string list" where
  "TAILS_PEOPLE_many = [''I see a busy background.'', ''Looks lively behind you.'']"

text \<open>
  \<^verbatim>\<open>random.choice(seq)\<close> with the index it draws given from outside (reduced modulo the
  length, so every draw is a legal one). On an empty sequence it raises IndexError.
\<close>

definition choice :: "nat \<Rightarrow> 'a list \<Rightarrow> exn + 'a" where
  "choice i xs = (if xs = [] then Inl IndexError else Inr (xs ! (i mod length xs)))"

text \<open>
  The random draws of one call of \<^verbatim>\<open>get_phrase\<close>, in the order of the calls in the
  source: the suggested length, opener, affect, action template, people tail, the test
  \<^verbatim>\<open>random.random() < 0.35\<close>; then, for the second attempt, opener, affect, action
  template, the test \<^verbatim>\<open>random.random() < 0.5\<close> and the other length.
\<close>

record draws =
  pick_length :: nat
  pick_opener :: nat
  pick_affect :: nat
  pick_action :: nat
  pick_tail :: nat
  coin_swap :: bool
  again_opener :: nat
  again_affect :: nat
  again_action :: nat
  coin_keep_len :: bool
  again_length :: nat

text \<open>
  The thresholds \<^verbatim>\<open>0.22\<close>, \<^verbatim>\<open>0.12\<close> and \<^verbatim>\<open>0.05\<close> of \<^verbatim>\<open>_motion_tail\<close> are the doubles
  those literals denote.
\<close>

definition lit_0_22 :: real where
  "lit_0_22 = 7926335344172073 / 36028797018963968"

definition lit_0_12 :: real where
  "lit_0_12 = 1080863910568919 / 9007199254740992"

definition lit_0_05 :: real where
  "lit_0_05 = 3602879701896397 / 72057594037927936"

text \<open>
  The context, with the value types the module's header documents
  (\<^verbatim>\<open>emotion\<close>, \<^verbatim>\<open>tod\<close>, \<^verbatim>\<open>name\<close>: strings; \<^verbatim>\<open>people\<close>: \<^verbatim>\<open>int|None\<close>;
  \<^verbatim>\<open>motion\<close>: \<^verbatim>\<open>float|None\<close>). A missing key and a key holding \<^verbatim>\<open>None\<close> are the
  same to \<^verbatim>\<open>ctx.get\<close>.
\<close>

record ctx =
  ctx_emotion :: "string option"
  ctx_people :: "int option"
  ctx_motion :: "pyfloat option"
  ctx_tod :: "string option"
  ctx_name :: "string option"

definition empty_ctx :: ctx where
  "empty_ctx = \<lparr>ctx_emotion = None, ctx_people = None, ctx_motion = None,
                ctx_tod = None, ctx_name = None\<rparr>"

text \<open>\<^verbatim>\<open>ctx.get(key) or default\<close>: the default replaces a missing and an empty string.\<close>

definition or_default :: "string option \<Rightarrow> string \<Rightarrow> string" where
  "or_default v d = (case v of None \<Rightarrow> d | Some x \<Rightarrow> if x = [] then d else x)"

definition people_tail :: "nat \<Rightarrow> int option \<Rightarrow> exn + string" where
  "people_tail i people =
     (case people of
        None \<Rightarrow> Inr ''''
      | Some p \<Rightarrow>
          if p \<le> 0 then choice i TAILS_PEOPLE_0
          else if p = 1 then choice i TAILS_PEOPLE_1
          else choice i TAILS_PEOPLE_many)"

definition motion_tail :: "pyfloat option \<Rightarrow> string" where
  "motion_tail motion =
     (case motion of
        None \<Rightarrow> ''''
      | Some m \<Rightarrow>
          if float_gt m lit_0_22 then ''Quite a bit of movement behind you.''
          else if float_gt m lit_0_12 then ''Some activity in the background.''
          else if float_lt m lit_0_05 then ''Background looks calm.''
          else '''')"

definition choose_nonrepeat :: "nat \<Rightarrow> string list \<Rightarrow> string list \<Rightarrow> exn + string" where
  "choose_nonrepeat i cands recent =
     (let novel_cands = filter (\<lambda>c. novel c recent) cands
      in choice i (if novel_cands \<noteq> [] then novel_cands else cands))"

definition emotion_bucket :: "string \<Rightarrow> string list" where
  "emotion_bucket em =
     (if em = ''happy'' then HAPPY
      else if em = ''surprised'' then SURPRISED
      else if em = ''angry'' then ANGRY
      else if em = ''sad'' then SAD
      else NEUTRAL)"

text \<open>
  \<^verbatim>\<open>template.format(len=n)\<close> for the action templates, whose only replacement field is
  \<^verbatim>\<open>{len}\<close>: each occurrence becomes \<^verbatim>\<open>str(n)\<close>.
\<close>

fun format_len :: "string \<Rightarrow> int \<Rightarrow> string" where
  "format_len [] n = []"
| "format_len (c # cs) n =
     (if startswith (c # cs) ''{len}'' then str_int n @ format_len (drop 4 cs) n
      else c # format_len cs n)"

text \<open>
  The three parts, the middle two exchanged when the coin says so, the joined tails
  appended when there are any, all joined by single spaces (lines 139 to 151, and again
  lines 159 to 161 where nothing is exchanged).
\<close>

definition assemble :: "string \<Rightarrow> string \<Rightarrow> string \<Rightarrow> string \<Rightarrow> bool \<Rightarrow> string list \<Rightarrow> string" where
  "assemble opener name affect action swap tails =
     (let parts = [opener @ '', '' @ name @ ''.'', affect @ ''.'', action];
          parts = (if swap then [parts ! 0, parts ! 2, parts ! 1] else parts);
          parts = (if tails \<noteq> [] then parts @ [join '' '' tails] else parts)
      in join '' '' parts)"

text \<open>The local variables of \<^verbatim>\<open>get_phrase\<close> that the second attempt reads.\<close>

record locals =
  l_name :: string
  l_length :: int
  l_opener_pool :: "string list"
  l_affect_pool :: "string list"
  l_tails :: "string list"

text \<open>Lines 119 to 151: the first attempt.\<close>

definition first_attempt :: "ctx \<Rightarrow> draws \<Rightarrow> exn + (string \<times> locals)" where
  "first_attempt c d =
     (let name = or_default (ctx_name c) ''there'';
          tod = or_default (ctx_tod c) ''day'';
          emotion = or_default (ctx_emotion c) ''neutral'';
          people = ctx_people c;
          motion = ctx_motion c
      in then_do (choice (pick_length d) [10, 15, 20, 25]) (\<lambda>length.
         let opener_pool = (case OPENERS tod of Some pool \<Rightarrow> pool | None \<Rightarrow> [''Let's focus'']);
             affect_pool = emotion_bucket emotion
         in then_do (choice (pick_opener d) opener_pool) (\<lambda>opener.
            then_do (choice (pick_affect d) affect_pool) (\<lambda>affect.
            then_do (choice (pick_action d) ACTIONS) (\<lambda>template.
            then_do (people_tail (pick_tail d) people) (\<lambda>ptail.
            let action = format_len template length;
                tails = filter (\<lambda>t. t \<noteq> []) [ptail, motion_tail motion];
                line = assemble opener name affect action (coin_swap d) tails
            in Inr (line, \<lparr>l_name = name, l_length = length, l_opener_pool = opener_pool,
                           l_affect_pool = affect_pool, l_tails = tails\<rparr>)))))))"

text \<open>Lines 156 to 161: the second attempt, made when the first line is not novel.\<close>

definition second_attempt :: "locals \<Rightarrow> draws \<Rightarrow> string list \<Rightarrow> exn + string" where
  "second_attempt l d recent =
     then_do (choice (again_opener d) (l_opener_pool l)) (\<lambda>opener.
     then_do (choose_nonrepeat (again_affect d) (l_affect_pool l) recent) (\<lambda>affect.
     then_do (choice (again_action d) ACTIONS) (\<lambda>template.
     then_do (if coin_keep_len d then Inr (l_length l)
              else choice (again_length d) [12, 18, 30]) (\<lambda>len.
     Inr (assemble opener (l_name l) affect (format_len template len) False (l_tails l))))))"

text \<open>\<^verbatim>\<open>get_phrase(ctx)\<close>: the line returned and the memory after the call.\<close>

definition get_phrase :: "ctx \<Rightarrow> draws \<Rightarrow> string list \<Rightarrow> exn + (string \<times> string list)" where
  "get_phrase c d recent =
     then_do (first_attempt c d) (\<lambda>(line, l).
       if \<not> novel line recent then
         then_do (second_attempt l d recent) (\<lambda>line2. Inr (line2, remember line2 recent))
       else Inr (line, remember line recent))"

text \<open>Successive calls share the memory; the first exception ends the sequence.\<close>

fun get_phrases :: "(ctx \<times> draws) list \<Rightarrow> string list \<Rightarrow> exn + (string list \<times> string list)" where
  "get_phrases [] recent = Inr ([], recent)"
| "get_phrases ((c, d) # rest) recent =
     then_do (get_phrase c d recent) (\<lambda>(line, recent1).
     then_do (get_phrases rest recent1) (\<lambda>(lines, recent2). Inr (line # lines, recent2)))"

definition draws0 :: draws where
  "draws0 = \<lparr>pick_length = 0, pick_opener = 0, pick_affect = 0, pick_action = 0,
             pick_tail = 0, coin_swap = False, again_opener = 0, again_affect = 0,
             again_action = 0, coin_keep_len = True, again_length = 0\<rparr>"

text \<open>What the all-zero draws give for the empty context.\<close>

definition line0 :: string where
  "line0 = ''Let's focus, there. Ready when you are. Want a 10-minute focus block?''"

text \<open>
  A fuller sample: an angry user called Edgars at night, three people and much movement
  behind, draws that exchange the middle parts of the first line and, for the second
  attempt, take the other length 30; and the two lines these draws give.
\<close>

definition sample_ctx :: ctx where
  "sample_ctx = \<lparr>ctx_emotion = Some ''angry'', ctx_people = Some 3,
           ctx_motion = Some (Finite (3 / 10)), ctx_tod = Some ''night'',
           ctx_name = Some ''Edgars''\<rparr>"

definition sample_draws :: draws where
  "sample_draws = \<lparr>pick_length = 3, pick_opener = 1, pick_affect = 1, pick_action = 1,
             pick_tail = 1, coin_swap = True, again_opener = 2, again_affect = 0,
             again_action = 0, coin_keep_len = False, again_length = 2\<rparr>"

definition sample_first :: string where
  "sample_first = ''Quiet hours focus, Edgars. Shall I set a 25-minute timer? Strong focus incoming. ''
           @ ''Looks lively behind you. Quite a bit of movement behind you.''"

definition sample_second :: string where
  "sample_second = ''Night mode, Edgars. Anger is just energy. Want a 30-minute focus block? ''
           @ ''Looks lively behind you. Quite a bit of movement behind you.''"

definition sample_preferred :: string where
  "sample_preferred = ''Night mode, Edgars. Strong focus incoming. Want a 30-minute focus block? ''
           @ ''Looks lively behind you. Quite a bit of movement behind you.''"

section \<open>The session orchestrator (scripts/ai\_mirror.py)\<close>

subsection \<open>Strings\<close>

text \<open>
  An utterance is a Python string. The model covers the strings whose code points are
  below 256, one \<open>char\<close> per code point. \<^verbatim>\<open>str.lower\<close> maps A to Z and the capital
  letters U+00C0 to U+00DE (but not the multiplication sign U+00D7) 32 places up;
  \<^verbatim>\<open>str.isdigit\<close> holds of 0 to 9 and of the superscripts U+00B2, U+00B3, U+00B9;
  \<^verbatim>\<open>str.strip\<close> removes the characters that \<^verbatim>\<open>str.isspace\<close> holds of.
\<close>

definition lower_char :: "char \<Rightarrow> char" where
  "lower_char c =
     (let n = (of_char c :: nat)
      in if (65 \<le> n \<and> n \<le> 90) \<or> (192 \<le> n \<and> n \<le> 222 \<and> n \<noteq> 215)
         then char_of (n + 32) else c)"

definition lower :: "string \<Rightarrow> string" where
  "lower s = map lower_char s"

definition isspace :: "char \<Rightarrow> bool" where
  "isspace c =
     (let n = (of_char c :: nat)
      in (9 \<le> n \<and> n \<le> 13) \<or> (28 \<le> n \<and> n \<le> 32) \<or> n = 133 \<or> n = 160)"

definition strip :: "string \<Rightarrow> string" where
  "strip s = rev (dropWhile isspace (rev (dropWhile isspace s)))"

definition is_ascii_digit :: "char \<Rightarrow> bool" where
  "is_ascii_digit c = (let n = (of_char c :: nat) in 48 \<le> n \<and> n \<le> 57)"

definition isdigit :: "char \<Rightarrow> bool" where
  "isdigit c = (let n = (of_char c :: nat) in (48 \<le> n \<and> n \<le> 57) \<or> n = 178 \<or> n = 179 \<or> n = 185)"

text \<open>The number a string of the digits 0 to 9 writes in base ten.\<close>

definition decimal :: "string \<Rightarrow> int" where
  "decimal s = foldl (\<lambda>a c. 10 * a + (int (of_char c) - 48)) 0 s"

text \<open>
  \<^verbatim>\<open>int(s)\<close> for a non-empty string of \<^verbatim>\<open>isdigit\<close> characters, the only strings the
  run loop passes to it. A superscript digit is not a decimal digit: ValueError. So is a
  string of more than \<^verbatim>\<open>sys.get_int_max_str_digits()\<close> digits when that limit is
  not 0 (it is 4300 by default since Python 3.11, and absent, here 0, before).
\<close>

definition int_of_digits :: "nat \<Rightarrow> string \<Rightarrow> exn + int" where
  "int_of_digits max_digits s =
     (if s = [] \<or> \<not> list_all is_ascii_digit s then Inl ValueError
      else if 0 < max_digits \<and> max_digits < length s then Inl ValueError
      else Inr (decimal s))"

text \<open>\<^verbatim>\<open>time.strftime('%H:%M')\<close> for the local hour (below 24) and minute (below 60).\<close>

definition pad2 :: "nat \<Rightarrow> string" where
  "pad2 n = [''0123456789'' ! (n div 10 mod 10), ''0123456789'' ! (n mod 10)]"

definition strftime_HM :: "nat \<times> nat \<Rightarrow> string" where
  "strftime_HM hm = pad2 (fst hm) @ '':'' @ pad2 (snd hm)"

subsection \<open>Collaborators and state\<close>

text \<open>
  The reply collaborator \<^verbatim>\<open>self.ai\<close>, by the two shapes of call the loop makes:
  \<^verbatim>\<open>reply(list(self.ctx), user)\<close> and \<^verbatim>\<open>reply(user)\<close>. Each returns a string or
  \<^verbatim>\<open>None\<close>, or raises.
\<close>

record responder =
  reply_ctx :: "string list \<Rightarrow> string \<Rightarrow> exn + string option"
  reply_text :: "string \<Rightarrow> exn + string option"

text \<open>
  What is fixed for a session: whether \<^verbatim>\<open>utils.sound.say\<close> was imported
  (\<^verbatim>\<open>_say\<close>), whether a camera was opened (\<^verbatim>\<open>self.cap\<close>; then \<^verbatim>\<open>cv2\<close> is present
  too), the reply collaborator if any, and the interpreter's limit on integer strings.
\<close>

record config =
  have_say :: bool
  have_cap :: bool
  ai :: "responder option"
  int_max_str_digits :: nat

text \<open>
  What one pass of the loop gets from outside. The camera gives no frame, or a frame with
  the emotion read from it (\<^verbatim>\<open>None\<close> when unavailable) and whether the preview window
  reports the key q (false also when the preview raises), or \<^verbatim>\<open>cap.read()\<close> raises,
  which \<^verbatim>\<open>_read_frame\<close> does not catch.
\<close>

datatype camera = NoFrame | Frame "string option" bool | ReadError exn

text \<open>
  The two readings of \<^verbatim>\<open>time.time()\<close> a pass can make (line 275 and line 305) are
  finite floats, given as the real numbers they denote; \<open>wall_clock\<close> is the local hour
  and minute that \<^verbatim>\<open>time.strftime\<close> prints.
\<close>

record input =
  cam :: camera
  clock_check :: real
  heard :: "string option"
  clock_set :: real
  wall_clock :: "nat \<times> nat"

text \<open>
  Console lines (\<^verbatim>\<open>print\<close>) and invocations of the audible output \<^verbatim>\<open>_say(text)\<close>,
  in order.
\<close>

datatype emission = Console string | Audible string

text \<open>
  The fields of \<^verbatim>\<open>AIMirror\<close> that the loop changes, the two locals of \<^verbatim>\<open>run\<close> that
  live across passes (\<^verbatim>\<open>timer_deadline\<close>, \<^verbatim>\<open>paused\<close>), and what has been output.
\<close>

record mirror =
  ctx_hist :: "string list"
  muted :: bool
  moods :: "string list"
  timer_deadline :: "pyfloat option"
  paused :: bool
  trace :: "emission list"

definition init_mirror :: mirror where
  "init_mirror = \<lparr>ctx_hist = [], muted = False, moods = [], timer_deadline = None,
                  paused = False, trace = []\<rparr>"

definition console :: "string \<Rightarrow> mirror \<Rightarrow> mirror" where
  "console line s = s\<lparr>trace := trace s @ [Console line]\<rparr>"

text \<open>The module's \<^verbatim>\<open>say(text)\<close>: always a console line, then \<^verbatim>\<open>_say\<close> if there is one.\<close>

definition say :: "config \<Rightarrow> string \<Rightarrow> mirror \<Rightarrow> mirror" where
  "say cfg text s =
     (let s1 = console (''[TTS] '' @ text) s
      in if have_say cfg then s1\<lparr>trace := trace s1 @ [Audible text]\<rparr> else s1)"

definition speak :: "config \<Rightarrow> string \<Rightarrow> mirror \<Rightarrow> mirror" where
  "speak cfg text s =
     (if \<not> muted s then say cfg text s else console (''[TTS muted] '' @ text) s)"

text \<open>Python's truth value of an optional string and of an optional float.\<close>

definition truthy :: "string option \<Rightarrow> bool" where
  "truthy v = (case v of None \<Rightarrow> False | Some x \<Rightarrow> x \<noteq> [])"

definition deadline_set :: "pyfloat option \<Rightarrow> bool" where
  "deadline_set v = (case v of None \<Rightarrow> False | Some d \<Rightarrow> float_truth d)"

subsection \<open>The offline answer\<close>

definition offline_answer :: "input \<Rightarrow> string \<Rightarrow> string option \<Rightarrow> string" where
  "offline_answer i user mood =
     (let u = strip (lower user)
      in if u = [] then ''I didn't catch that. Try again?''
         else if contains ''weather'' u \<or> contains ''temperature'' u then
           ''I can't check live weather yet, but it looks like a good day to drink water and stretch.''
         else if contains ''time'' u then ''It's '' @ strftime_HM (wall_clock i) @ ''.''
         else if contains ''name'' u then ''I'm your AI mirror.''
         else if contains ''camera'' u then
           ''The camera is on for face detection; say 'quit' to exit.''
         else if truthy mood then
           ''You look a bit '' @ the mood @ '' to me. How can I help?''
         else ''Okay.'')"

subsection \<open>One pass of the loop\<close>

datatype flow = Continues | Breaks | Raises exn

text \<open>Lines 254 to 271: the camera, the mood and the preview window.\<close>

definition sense :: "config \<Rightarrow> input \<Rightarrow> mirror \<Rightarrow> flow \<times> string option \<times> mirror" where
  "sense cfg i s =
     (if have_cap cfg then
        (case cam i of
           ReadError e \<Rightarrow> (Raises e, None, s)
         | NoFrame \<Rightarrow> (Continues, None, s)
         | Frame mood q \<Rightarrow>
             (let s1 = (if truthy mood
                        then console (''[MOOD] '' @ the mood)
                               (s\<lparr>moods := deque_append 12 (the mood) (moods s)\<rparr>)
                        else s)
              in if q then (Breaks, mood, speak cfg ''Goodbye.'' s1) else (Continues, mood, s1)))
      else (Continues, None, s))"

text \<open>Lines 274 to 277: the loop's own deadline.\<close>

definition timer_check :: "config \<Rightarrow> input \<Rightarrow> mirror \<Rightarrow> mirror" where
  "timer_check cfg i s =
     (if deadline_set (timer_deadline s) \<and> \<not> paused s then
        (if float_reached (clock_check i) (the (timer_deadline s))
         then (speak cfg ''Timer done.'' s)\<lparr>timer_deadline := None\<rparr>
         else s)
      else s)"

text \<open>The argument of \<^verbatim>\<open>int\<close> in line 304: the digits of the utterance, or \<^verbatim>\<open>"25"\<close>.\<close>

definition spoken_digits :: "string \<Rightarrow> string" where
  "spoken_digits l = (let ds = filter isdigit l in if ds = [] then ''25'' else ds)"

text \<open>
  Lines 337 to 345. An exception of the first call is caught; the handler of TypeError
  calls the collaborator again, and nothing catches what that call raises.
\<close>

definition ask_ai :: "config \<Rightarrow> string list \<Rightarrow> string \<Rightarrow> exn + string option" where
  "ask_ai cfg history user =
     (case ai cfg of
        None \<Rightarrow> Inr None
      | Some r \<Rightarrow>
          (case reply_ctx r history user of
             Inr v \<Rightarrow> Inr v
           | Inl TypeError \<Rightarrow> reply_text r user
           | Inl e \<Rightarrow> Inr None))"

text \<open>Lines 337 to 352: the conversational turn.\<close>

definition converse :: "config \<Rightarrow> input \<Rightarrow> string option \<Rightarrow> string \<Rightarrow> mirror \<Rightarrow> flow \<times> mirror" where
  "converse cfg i mood user s =
     (case ask_ai cfg (ctx_hist s) user of
        Inl e \<Rightarrow> (Raises e, s)
      | Inr r \<Rightarrow>
          (let reply = (case r of None \<Rightarrow> offline_answer i user mood | Some text \<Rightarrow> text);
               s1 = s\<lparr>ctx_hist := deque_append 12 reply (deque_append 12 user (ctx_hist s))\<rparr>
           in (Continues, speak cfg reply s1)))"

text \<open>Lines 284 to 352: the commands in their order of precedence, then the turn.\<close>

definition commands :: "config \<Rightarrow> input \<Rightarrow> string option \<Rightarrow> string \<Rightarrow> mirror \<Rightarrow> flow \<times> mirror" where
  "commands cfg i mood user s =
     (let l = lower user
      in if contains ''quit'' l \<or> contains ''goodbye'' l then (Breaks, speak cfg ''Goodbye.'' s)
         else if strip l = ''mute'' then (Continues, console ''[VOICE] muted.'' (s\<lparr>muted := True\<rparr>))
         else if strip l = ''unmute'' then
           (Continues, speak cfg ''Okay, I can speak again.'' (s\<lparr>muted := False\<rparr>))
         else if startswith l ''start timer'' then
           (case then_do (int_of_digits (int_max_str_digits cfg) (spoken_digits l)) (\<lambda>n.
                 then_do (float_add_int (clock_set i) n) (\<lambda>deadline. Inr (n, deadline))) of
              Inr (n, deadline) \<Rightarrow>
                (Continues, speak cfg (''Timer set for '' @ str_int n @ '' seconds.'')
                             (s\<lparr>timer_deadline := Some deadline, paused := False\<rparr>))
            | Inl e \<Rightarrow> (Continues, speak cfg ''Couldn't set the timer.'' s))
         else if contains ''pause timer'' l then
           (if deadline_set (timer_deadline s)
            then (Continues, speak cfg ''Timer paused.'' (s\<lparr>paused := True\<rparr>))
            else (Continues, speak cfg ''No running timer.'' s))
         else if contains ''resume timer'' l then
           (if deadline_set (timer_deadline s) \<and> paused s
            then (Continues, speak cfg ''Timer resumed.'' (s\<lparr>paused := False\<rparr>))
            else (Continues, speak cfg ''No paused timer.'' s))
         else if contains ''status'' l then
           (if moods s \<noteq> []
            then (Continues, speak cfg (''I think you're '' @ last (moods s) @ ''.'') s)
            else (Continues, speak cfg ''I'm running fine.'' s))
         else converse cfg i mood user s)"

text \<open>Lines 280 to 283: the prompt and \<^verbatim>\<open>_listen\<close>, with its console line.\<close>

definition listen :: "config \<Rightarrow> input \<Rightarrow> mirror \<Rightarrow> mirror" where
  "listen cfg i s =
     (let s1 = speak cfg ''Say something! (Speak clearly for ~5 seconds...)'' s
      in if truthy (heard i) then console (''[VOICE] Recognized: '' @ the (heard i)) s1
         else console ''[VOICE] Timeout: nothing heard.'' s1)"

definition iteration :: "config \<Rightarrow> input \<Rightarrow> mirror \<Rightarrow> flow \<times> mirror" where
  "iteration cfg i s =
     (case sense cfg i s of
        (Continues, mood, s1) \<Rightarrow>
          (let s2 = listen cfg i (timer_check cfg i s1)
           in if \<not> truthy (heard i) then (Continues, s2)
              else commands cfg i mood (the (heard i)) s2)
      | (fl, mood, s1) \<Rightarrow> (fl, s1))"

text \<open>
  \<^verbatim>\<open>while True\<close> over the passes the environment has supplied so far: the loop ends at
  a \<^verbatim>\<open>break\<close> or at an exception that leaves \<^verbatim>\<open>run\<close>, and is still going
  (\<open>Continues\<close>) when the inputs are used up.
\<close>

fun run :: "config \<Rightarrow> input list \<Rightarrow> mirror \<Rightarrow> flow \<times> mirror" where
  "run cfg [] s = (Continues, s)"
| "run cfg (i # rest) s =
     (case iteration cfg i s of
        (Continues, s1) \<Rightarrow> run cfg rest s1
      | (fl, s1) \<Rightarrow> (fl, s1))"

definition audibles :: "emission list \<Rightarrow> emission list" where
  "audibles os = filter (\<lambda>x. case x of Audible t \<Rightarrow> True | Console t \<Rightarrow> False) os"

text \<open>Sample surroundings: no camera, a clock, and a collaborator that always raises.\<close>

definition heard_at :: "string \<Rightarrow> input" where
  "heard_at u = \<lparr>cam = NoFrame, clock_check = 1000, heard = Some u, clock_set = 1000,
                 wall_clock = (9, 5)\<rparr>"

definition raising :: "exn \<Rightarrow> responder" where
  "raising e = \<lparr>reply_ctx = (\<lambda>history user. Inl e), reply_text = (\<lambda>user. Inl e)\<rparr>"

definition session :: "responder option \<Rightarrow> config" where
  "session r = \<lparr>have_say = True, have_cap = False, ai = r, int_max_str_digits = 4300\<rparr>"

text \<open>The utterance of a pass is \<^verbatim>\<open>unmute\<close>, as line 296 tests it.\<close>

definition says_unmute :: "input \<Rightarrow> bool" where
  "says_unmute i = (case heard i of None \<Rightarrow> False | Some u \<Rightarrow> strip (lower u) = ''unmute'')"

text \<open>State \<open>s'\<close> is muted and has invoked the audible output no more than \<open>s\<close> had.\<close>

definition hushed :: "mirror \<Rightarrow> mirror \<Rightarrow> bool" where
  "hushed s s' = (muted s' \<and> audibles (trace s') = audibles (trace s))"

definition muted_mirror :: mirror where
  "muted_mirror = init_mirror\<lparr>muted := True\<rparr>"

text \<open>
  The spec has the session drive the countdown timer of utils/timer.py. The script
  ai\_mirror.py does not import that module, \<^verbatim>\<open>AIMirror\<close> holds no
  \<^verbatim>\<open>PomodoroTimer\<close> and \<^verbatim>\<open>run\<close> calls no method of one: whatever timer the process
  has is, after a pass of the loop, as it was before.
\<close>

definition pass_with_timer :: "config \<Rightarrow> input \<Rightarrow> mirror \<times> timer \<Rightarrow> flow \<times> mirror \<times> timer" where
  "pass_with_timer cfg i st = (case iteration cfg i (fst st) of (fl, s1) \<Rightarrow> (fl, s1, snd st))"

section \<open>Properties of the timer\<close>

lemma flag_ops_keep_thread:
  "set ops \<subseteq> {Pause, Resume, Stop} \<Longrightarrow> f_t (exec ops s) = f_t s"
  by (induction ops arbitrary: s) (auto simp: pause_def resume_def stop_def)

lemma first_step_of_fresh_run:
  assumes "\<not> is_running s" and "0 < w" and "0 < n"
  shows "wake (snd (start w b n s)) =
           (notify (on_tick s) (Tick (w * 60 - 1) Work)
              ((notify (on_phase s) (PhaseStart Work)
                 (s\<lparr>f_stop := False, f_paused := False, f_phase := Work\<rparr>))
                 \<lparr>f_remaining := w * 60 - 1\<rparr>))
           \<lparr>f_t := Some \<lparr>work_s = w * 60, break_s = b * 60, cycles = n, pc = Asleep 0 Work\<rparr>\<rparr>"
  using assms
  by (simp add: start_def wake_def countdown_def loop_pass_def notify_def)

lemma loop_pass_paused:
  "f_paused s \<Longrightarrow> f_remaining (snd (loop_pass s)) = f_remaining s
     \<and> notified (snd (loop_pass s)) = notified s \<and> f_paused (snd (loop_pass s))"
  by (simp add: loop_pass_def)

lemma countdown_paused:
  "f_paused s \<Longrightarrow> f_remaining (snd (countdown k ph s)) = k
     \<and> ticks (notified (snd (countdown k ph s))) = ticks (notified s)
     \<and> f_paused (snd (countdown k ph s))"
  by (simp add: countdown_def loop_pass_def notify_def ticks_def is_tick_def Let_def)

text \<open>
  However many phases of length 0 the thread runs through in one step, a paused timer
  gets no tick notification, and the seconds left are either untouched or the duration
  loaded by the last phase entered.
\<close>

lemma run_from_paused:
  "f_paused s \<Longrightarrow>
     f_remaining (snd (run_from w r s)) \<in> {f_remaining s, work_s w, break_s w}
   \<and> ticks (notified (snd (run_from w r s))) = ticks (notified s)"
proof (induction w r s rule: run_from.induct)
  case (1 w c s)
  show ?case
  proof (cases "c < cycles w")
    case False
    then show ?thesis by (simp add: notify_def ticks_def is_tick_def)
  next
    case True
    obtain o1 s1 where cd: "countdown (work_s w) Work s = (o1, s1)"
      by (cases "countdown (work_s w) Work s")
    have f: "f_remaining s1 = work_s w" "ticks (notified s1) = ticks (notified s)" "f_paused s1"
      using countdown_paused [OF "1.prems", of "work_s w" Work] cd by simp_all
    show ?thesis
    proof (cases o1)
      case Sleep
      then show ?thesis using True cd f by simp
    next
      case (Return b)
      show ?thesis
      proof (cases b)
        case False
        then show ?thesis using True cd f Return by simp
      next
        case tr: True
        have "f_remaining (snd (run_from w (AfterWork c) s1))
                \<in> {f_remaining s1, work_s w, break_s w}
           \<and> ticks (notified (snd (run_from w (AfterWork c) s1))) = ticks (notified s1)"
          using "1.IH" [OF True cd [symmetric] _ _ f(3)] Return tr by simp
        then show ?thesis using True cd f Return tr by auto
      qed
    qed
  qed
next
  case (2 w c s)
  show ?case
  proof (cases "c < cycles w - 1")
    case False
    then show ?thesis using "2.IH"(2) "2.prems" by simp
  next
    case True
    obtain o1 s1 where cd: "countdown (break_s w) Break s = (o1, s1)"
      by (cases "countdown (break_s w) Break s")
    have f: "f_remaining s1 = break_s w" "ticks (notified s1) = ticks (notified s)" "f_paused s1"
      using countdown_paused [OF "2.prems", of "break_s w" Break] cd by simp_all
    show ?thesis
    proof (cases o1)
      case Sleep
      then show ?thesis using True cd f by simp
    next
      case (Return b)
      show ?thesis
      proof (cases b)
        case False
        then show ?thesis using True cd f Return by simp
      next
        case tr: True
        have "f_remaining (snd (run_from w (ForNext (c + 1)) s1))
                \<in> {f_remaining s1, work_s w, break_s w}
           \<and> ticks (notified (snd (run_from w (ForNext (c + 1)) s1))) = ticks (notified s1)"
          using "2.IH"(1) [OF True cd [symmetric] _ _ f(3)] Return tr by simp
        then show ?thesis using True cd f Return tr by auto
      qed
    qed
  qed
qed

lemma wake_paused:
  assumes "f_paused s"
  shows "ticks (notified (wake s)) = ticks (notified s)
      \<and> (f_remaining (wake s) = f_remaining s
         \<or> (\<exists>w. f_t s = Some w \<and> f_remaining (wake s) \<in> {work_s w, break_s w}))"
proof (cases "f_t s")
  case None
  then show ?thesis by (simp add: wake_def)
next
  case (Some w)
  show ?thesis
  proof (cases "pc w")
    case Finished
    then show ?thesis using Some by (simp add: wake_def)
  next
    case Fresh
    obtain p s1 where r: "run_from w (ForNext 0) s = (p, s1)"
      by (cases "run_from w (ForNext 0) s")
    then show ?thesis
      using Some Fresh run_from_paused [OF assms, of w "ForNext 0"] by (auto simp: wake_def)
  next
    case (Asleep c ph)
    obtain o1 s1 where lp: "loop_pass s = (o1, s1)" by (cases "loop_pass s")
    have f: "f_remaining s1 = f_remaining s" "notified s1 = notified s" "f_paused s1"
      using loop_pass_paused [OF assms] lp by simp_all
    show ?thesis
    proof (cases o1)
      case Sleep
      then show ?thesis using Some Asleep lp f by (simp add: wake_def)
    next
      case (Return b)
      show ?thesis
      proof (cases b)
        case False
        then show ?thesis using Some Asleep lp f Return by (simp add: wake_def)
      next
        case True
        obtain p s2 where
          r: "run_from w (if ph = Work then AfterWork c else ForNext (c + 1)) s1 = (p, s2)"
          by (cases "run_from w (if ph = Work then AfterWork c else ForNext (c + 1)) s1")
        have "f_remaining s2 \<in> {f_remaining s1, work_s w, break_s w}
            \<and> ticks (notified s2) = ticks (notified s1)"
          using run_from_paused [OF f(3), of w "if ph = Work then AfterWork c else ForNext (c + 1)"] r
          by simp
        then show ?thesis using Some Asleep lp f Return True r by (auto simp: wake_def)
      qed
    qed
  qed
qed

lemma wake_paused_mid_phase:
  assumes "f_paused s" and "mid_phase s"
  shows "f_remaining (wake s) = f_remaining s \<and> notified (wake s) = notified s"
  using assms
  by (auto simp: mid_phase_def wake_def loop_pass_def split: option.splits pc.splits)

text \<open>
  What \<open>stop\<close> does achieve: when the flag is seen by a countdown that still has seconds
  left, the thread sets the phase to idle and ends without any further notification.
\<close>

lemma stop_seen_mid_phase:
  assumes "f_stop s" and "f_t s = Some w" and "pc w = Asleep c ph" and "0 < f_remaining s"
  shows "wake s = s\<lparr>f_phase := Idle, f_t := Some (w\<lparr>pc := Finished\<rparr>)\<rparr>"
  using assms by (simp add: wake_def loop_pass_def)

subsection \<open>A run left alone\<close>

text \<open>
  A run that is neither stopped nor paused ends after finitely many steps, whatever the
  durations: each countdown ticks down to 0 and hands over, and the notifications other
  than ticks are work, break, work, ..., work, completion.
\<close>

lemma run_from_pc_irrelevant: "run_from (w\<lparr>pc := p\<rparr>) r s = run_from w r s"
proof (induction w r s rule: run_from.induct)
  case (1 w c s)
  show ?case
    using "1.IH" by (simp split: prod.splits outcome.splits bool.splits)
next
  case (2 w c s)
  show ?case
    using "2.IH" by (simp split: prod.splits outcome.splits bool.splits)
qed

lemma settle_pc_irrelevant: "settle (w\<lparr>pc := p\<rparr>) r = settle w r"
  by (simp add: settle_def)

lemma wake_fresh: "f_t s = Some w \<Longrightarrow> pc w = Fresh \<Longrightarrow> wake s = settle w (run_from w (ForNext 0) s)"
  by (simp add: wake_def settle_def split: prod.splits)

lemma wake_ticking:
  assumes "undisturbed s" and "f_t s = Some w" and "pc w = Asleep c ph" and "0 < f_remaining s"
  shows "wake s = notify (on_tick s) (Tick (f_remaining s - 1) (f_phase s))
                    (s\<lparr>f_remaining := f_remaining s - 1\<rparr>)"
proof -
  have "w\<lparr>pc := Asleep c ph\<rparr> = w" using assms(3) by simp
  then show ?thesis
    using assms by (simp add: wake_def loop_pass_def undisturbed_def notify_def Let_def)
qed

lemma wake_at_zero:
  assumes "f_t s = Some w" and "pc w = Asleep c ph" and "f_remaining s \<le> 0"
  shows "wake s = settle w (run_from w (next_point c ph) s)"
  using assms by (simp add: wake_def loop_pass_def settle_def next_point_def split: prod.splits)

lemma exec_wakes_Suc: "exec (replicate (Suc k) Wake) s = exec (replicate k Wake) (wake s)"
  by simp

lemma exec_wakes_add:
  "exec (replicate (j + k) Wake) s = exec (replicate k Wake) (exec (replicate j Wake) s)"
  by (induction j arbitrary: s) simp_all

lemma count_down:
  assumes "undisturbed s" and "f_t s = Some w" and "pc w = Asleep c ph" and "f_remaining s = int k"
  shows "f_t (exec (replicate k Wake) s) = Some w
       \<and> f_remaining (exec (replicate k Wake) s) = 0
       \<and> advanced s (f_phase s) [] (exec (replicate k Wake) s)"
  using assms
proof (induction k arbitrary: s)
  case 0
  then show ?case by (simp add: advanced_def)
next
  case (Suc k)
  let ?s1 = "wake s"
  have w: "?s1 = notify (on_tick s) (Tick (f_remaining s - 1) (f_phase s))
                    (s\<lparr>f_remaining := f_remaining s - 1\<rparr>)"
    using wake_ticking [OF Suc.prems(1,2,3)] Suc.prems(4) by simp
  have p: "undisturbed ?s1" "f_t ?s1 = Some w" "f_remaining ?s1 = int k" "f_phase ?s1 = f_phase s"
      "phase_notes (notified ?s1) = phase_notes (notified s)"
    using Suc.prems unfolding w
    by (simp_all add: notify_def undisturbed_def phase_notes_def is_tick_def)
  have "f_t (exec (replicate k Wake) ?s1) = Some w
       \<and> f_remaining (exec (replicate k Wake) ?s1) = 0
       \<and> advanced ?s1 (f_phase ?s1) [] (exec (replicate k Wake) ?s1)"
    using Suc.IH [OF p(1) p(2) Suc.prems(3) p(3)] .
  then show ?case using p(4,5) by (simp add: advanced_def)
qed

lemma countdown_free_parts:
  assumes "undisturbed s"
  shows "advanced s ph [PhaseStart ph] (snd (countdown secs ph s))
       \<and> (if 0 < secs
          then fst (countdown secs ph s) = Sleep \<and> f_remaining (snd (countdown secs ph s)) = secs - 1
          else fst (countdown secs ph s) = Return True)"
  using assms
  by (simp add: countdown_def loop_pass_def notify_def undisturbed_def advanced_def phase_notes_def
      is_tick_def Let_def)

lemma countdown_free:
  assumes "undisturbed s"
  shows "\<exists>s1. advanced s ph [PhaseStart ph] s1
            \<and> (if 0 < secs then countdown secs ph s = (Sleep, s1) \<and> f_remaining s1 = secs - 1
                else countdown secs ph s = (Return True, s1))"
  using countdown_free_parts [OF assms, of ph secs]
  by (cases "countdown secs ph s") (auto split: if_splits)

lemma advanced_trans:
  "advanced s ph es s1 \<Longrightarrow> advanced s1 ph [] s2 \<Longrightarrow> advanced s ph es s2"
  by (simp add: advanced_def)

lemma phase_then:
  assumes fr: "undisturbed s" and np: "next_point c ph = r"
    and cont: "\<And>s2. advanced s ph [PhaseStart ph] s2 \<Longrightarrow>
                 \<exists>k. G (exec (replicate k Wake) (settle w (run_from w r s2)))"
  shows "\<exists>k. G (exec (replicate k Wake)
                 (settle w (case countdown secs ph s of
                              (Sleep, s1) \<Rightarrow> (Asleep c ph, s1)
                            | (Return False, s1) \<Rightarrow> (Finished, s1)
                            | (Return True, s1) \<Rightarrow> run_from w r s1)))"
proof -
  obtain s1 where adv: "advanced s ph [PhaseStart ph] s1"
    and cd: "if 0 < secs then countdown secs ph s = (Sleep, s1) \<and> f_remaining s1 = secs - 1
             else countdown secs ph s = (Return True, s1)"
    using countdown_free [OF fr, of ph secs] by blast
  show ?thesis
  proof (cases "0 < secs")
    case False
    then show ?thesis using cd cont [OF adv] by simp
  next
    case True
    let ?w = "w\<lparr>pc := Asleep c ph\<rparr>"
    let ?t = "settle w (Asleep c ph, s1)"
    let ?k1 = "nat (secs - 1)"
    have t: "undisturbed ?t" "f_t ?t = Some ?w" "pc ?w = Asleep c ph" "f_remaining ?t = int ?k1"
        "f_phase ?t = ph" "phase_notes (notified ?t) = phase_notes (notified s1)"
      using adv cd True by (simp_all add: settle_def advanced_def undisturbed_def)
    let ?t' = "exec (replicate ?k1 Wake) ?t"
    have c: "f_t ?t' = Some ?w" "f_remaining ?t' = 0" "advanced ?t ph [] ?t'"
      using count_down [OF t(1) t(2) t(3) t(4)] t(5) by simp_all
    have "advanced s1 ph [] ?t'" using c(3) t(6) by (simp add: advanced_def)
    then have adv': "advanced s ph [PhaseStart ph] ?t'" using adv advanced_trans by blast
    have wk: "wake ?t' = settle w (run_from w r ?t')"
      using wake_at_zero [OF c(1) t(3)] c(2) np
      by (simp add: run_from_pc_irrelevant settle_pc_irrelevant)
    obtain k2 where g: "G (exec (replicate k2 Wake) (settle w (run_from w r ?t')))"
      using cont [OF adv'] by blast
    have "exec (replicate (?k1 + Suc k2) Wake) ?t
            = exec (replicate k2 Wake) (settle w (run_from w r ?t'))"
      using wk by (simp only: exec_wakes_add exec_wakes_Suc)
    then have g': "G (exec (replicate (?k1 + Suc k2) Wake) ?t)" using g by simp
    have shape: "settle w (case countdown secs ph s of
                              (Sleep, s1) \<Rightarrow> (Asleep c ph, s1)
                            | (Return False, s1) \<Rightarrow> (Finished, s1)
                            | (Return True, s1) \<Rightarrow> run_from w r s1) = ?t"
      using cd True by simp
    show ?thesis unfolding shape using g' by blast
  qed
qed

lemma run_to_end:
  assumes "undisturbed s" and "nat (cycles w - c) = m"
  shows "\<exists>k. finished_with s m (exec (replicate k Wake) (settle w (run_from w (ForNext c) s)))"
  using assms
proof (induction m arbitrary: s c)
  case 0
  then have "\<not> c < cycles w" by simp
  then have "finished_with s 0 (exec (replicate 0 Wake) (settle w (run_from w (ForNext c) s)))"
    using "0.prems"(1)
    by (simp add: finished_with_def finished_def settle_def notify_def undisturbed_def
        phase_notes_def is_tick_def)
  then show ?case by blast
next
  case (Suc m)
  then have lt: "c < cycles w" by simp
  have m': "nat (cycles w - (c + 1)) = m" using Suc.prems(2) by simp
  have cont: "\<exists>k. finished_with s (Suc m)
                  (exec (replicate k Wake) (settle w (run_from w (AfterWork c) s2)))"
    if adv: "advanced s Work [PhaseStart Work] s2" for s2
  proof (cases "m = 0")
    case True
    then have "\<not> c < cycles w - 1" using Suc.prems(2) by simp
    then have eq: "run_from w (AfterWork c) s2 = run_from w (ForNext (c + 1)) s2"
      by simp
    obtain k where "finished_with s2 0
        (exec (replicate k Wake) (settle w (run_from w (ForNext (c + 1)) s2)))"
      using Suc.IH [of s2 "c + 1"] adv m' True by (auto simp: advanced_def)
    then have "finished_with s (Suc m)
        (exec (replicate k Wake) (settle w (run_from w (AfterWork c) s2)))"
      using adv True eq by (simp add: finished_with_def advanced_def)
    then show ?thesis by blast
  next
    case False
    then have lt1: "c < cycles w - 1" using Suc.prems(2) by simp
    have fr2: "undisturbed s2" using adv by (simp add: advanced_def)
    have cont2: "\<exists>k. finished_with s (Suc m)
                  (exec (replicate k Wake) (settle w (run_from w (ForNext (c + 1)) s3)))"
      if adv3: "advanced s2 Break [PhaseStart Break] s3" for s3
    proof -
      obtain k where "finished_with s3 m
          (exec (replicate k Wake) (settle w (run_from w (ForNext (c + 1)) s3)))"
        using Suc.IH [of s3 "c + 1"] adv3 m' by (auto simp: advanced_def)
      then have "finished_with s (Suc m)
          (exec (replicate k Wake) (settle w (run_from w (ForNext (c + 1)) s3)))"
        using adv adv3 False by (simp add: finished_with_def advanced_def)
      then show ?thesis by blast
    qed
    have np: "next_point c Break = ForNext (c + 1)" by (simp add: next_point_def)
    have "\<exists>k. finished_with s (Suc m) (exec (replicate k Wake)
                 (settle w (case countdown (break_s w) Break s2 of
                              (Sleep, s1) \<Rightarrow> (Asleep c Break, s1)
                            | (Return False, s1) \<Rightarrow> (Finished, s1)
                            | (Return True, s1) \<Rightarrow> run_from w (ForNext (c + 1)) s1)))"
      using phase_then [OF fr2 np, of "finished_with s (Suc m)" w "break_s w"] cont2 by blast
    then show ?thesis using lt1 by simp
  qed
  have np: "next_point c Work = AfterWork c" by (simp add: next_point_def)
  have "\<exists>k. finished_with s (Suc m) (exec (replicate k Wake)
                 (settle w (case countdown (work_s w) Work s of
                              (Sleep, s1) \<Rightarrow> (Asleep c Work, s1)
                            | (Return False, s1) \<Rightarrow> (Finished, s1)
                            | (Return True, s1) \<Rightarrow> run_from w (AfterWork c) s1)))"
    using phase_then [OF Suc.prems(1) np, of "finished_with s (Suc m)" w "work_s w"] cont
    by blast
  then show ?case using lt by simp
qed

lemma expected_notes_shape:
  "expected_notes (Suc m) = concat (replicate m [PhaseStart Work, PhaseStart Break]) @ [PhaseStart Work, Done]"
proof (induction m)
  case 0
  show ?case by simp
next
  case (Suc m)
  have "expected_notes (Suc (Suc m)) = [PhaseStart Work, PhaseStart Break] @ expected_notes (Suc m)" by simp
  then show ?case using Suc.IH by simp
qed

lemma natural_completion:
  assumes "\<not> is_running s" and "on_phase s" and "on_done s" and "1 \<le> n"
  shows "\<exists>k. \<not> is_running (exec (replicate k Wake) (snd (start w b n s)))
           \<and> phase_notes (notified (exec (replicate k Wake) (snd (start w b n s))))
               = phase_notes (notified s)
                 @ concat (replicate (nat n - 1) [PhaseStart Work, PhaseStart Break])
                 @ [PhaseStart Work, Done]
           \<and> f_phase (exec (replicate k Wake) (snd (start w b n s))) = Work"
proof -
  let ?w = "\<lparr>work_s = w * 60, break_s = b * 60, cycles = n, pc = Fresh\<rparr>"
  let ?s1 = "snd (start w b n s)"
  have s1: "undisturbed ?s1" "f_t ?s1 = Some ?w" "notified ?s1 = notified s"
    using assms by (simp_all add: start_def undisturbed_def)
  have wk: "wake ?s1 = settle ?w (run_from ?w (ForNext 0) ?s1)"
    using wake_fresh [OF s1(2)] by simp
  obtain m where m: "nat n = Suc m" using assms(4) by (cases "nat n") auto
  then have "nat (cycles ?w - 0) = Suc m" by simp
  then obtain k where "finished_with ?s1 (Suc m)
      (exec (replicate k Wake) (settle ?w (run_from ?w (ForNext 0) ?s1)))"
    using run_to_end [OF s1(1), of ?w 0 "Suc m"] by blast
  then have f: "finished_with ?s1 (Suc m) (exec (replicate (Suc k) Wake) ?s1)"
    using wk by simp
  have "\<not> is_running (exec (replicate (Suc k) Wake) ?s1)"
    using f by (auto simp: finished_with_def finished_def is_running_def split: option.splits)
  moreover have "phase_notes (notified (exec (replicate (Suc k) Wake) ?s1))
               = phase_notes (notified s)
                 @ concat (replicate (nat n - 1) [PhaseStart Work, PhaseStart Break])
                 @ [PhaseStart Work, Done]"
    using f s1(3) m expected_notes_shape [of m] by (simp add: finished_with_def)
  moreover have "f_phase (exec (replicate (Suc k) Wake) ?s1) = Work"
    using f by (simp add: finished_with_def)
  ultimately show ?thesis by blast
qed

text \<open>
  C1. A run of \<^verbatim>\<open>start(1, 1, 2)\<close> left alone for its 180 seconds notifies
  work, break, work and then completion once, and the thread ends; but the phase it
  leaves behind is still work, not idle: \<^verbatim>\<open>_run\<close> does not touch \<^verbatim>\<open>_phase\<close>
  after its last countdown, while the stop path of \<^verbatim>\<open>_countdown\<close> sets it to idle.
\<close>

theorem completed_run_keeps_work_phase:
  "notified (exec (Start 1 1 2 # replicate 181 Wake) (init False True True))
     = [PhaseStart Work, PhaseStart Break, PhaseStart Work, Done]
   \<and> \<not> is_running (exec (Start 1 1 2 # replicate 181 Wake) (init False True True))
   \<and> f_remaining (exec (Start 1 1 2 # replicate 181 Wake) (init False True True)) = 0
   \<and> f_phase (exec (Start 1 1 2 # replicate 181 Wake) (init False True True)) = Work
   \<and> st_phase (status (exec (Start 1 1 2 # replicate 181 Wake) (init False True True))) \<noteq> Idle"
  by code_simp

text \<open>
  C4. \<open>stop\<close> called during the sleep that follows the last tick of a phase is not seen
  by that countdown: the loop test fails first. With another phase to come, the break's
  phase notification still fires before the flag is read; with none, the completion
  notification fires and the phase stays work for good.
\<close>

theorem stop_at_phase_end_still_notifies:
  "f_remaining (work_elapsed 2) = 0 \<and> is_running (work_elapsed 2)
   \<and> notified (wake (stop (work_elapsed 2))) = notified (stop (work_elapsed 2)) @ [PhaseStart Break]
   \<and> f_remaining (work_elapsed 1) = 0 \<and> is_running (work_elapsed 1)
   \<and> notified (wake (stop (work_elapsed 1))) = notified (stop (work_elapsed 1)) @ [Done]
   \<and> f_phase (wake (stop (work_elapsed 1))) = Work
   \<and> \<not> is_running (wake (stop (work_elapsed 1)))"
  by code_simp

text \<open>
  C6. On a timer whose countdown is running, \<open>start\<close> returns false and leaves every
  field as it was, among them the seconds left, the phase and the paused flag.
\<close>

theorem start_while_running_rejected:
  assumes "is_running s"
  shows "start work_min break_min n s = (False, s)"
  using assms by (simp add: start_def)

theorem start_while_running_rejected_witness:
  "is_running (wake (snd (start 1 1 2 (init True True True))))
   \<and> start 25 5 4 (wake (snd (start 1 1 2 (init True True True))))
       = (False, wake (snd (start 1 1 2 (init True True True))))"
proof -
  have r: "is_running (wake (snd (start 1 1 2 (init True True True))))"
    by (simp add: is_running_def wake_def start_def init_def countdown_def loop_pass_def
        notify_def)
  show ?thesis using r start_while_running_rejected [OF r, of 25 5 4] by simp
qed

text \<open>
  C7, as the claim states it, fails where a phase hands over: paused during the sleep
  after the last tick of the work phase of \<^verbatim>\<open>start(1, 1, 2)\<close>, the timer shows 0 seconds
  left, and the next step of the thread loads the break's 60 seconds all the same.
\<close>

theorem paused_not_frozen_counterexample:
  "f_paused (pause (work_elapsed 2))
   \<and> is_running (pause (work_elapsed 2))
   \<and> f_remaining (pause (work_elapsed 2)) = 0
   \<and> f_remaining (wake (pause (work_elapsed 2))) = 60"
  by code_simp

text \<open>
  C7, amended. While the paused flag is true no step of the thread fires a tick
  notification or decrements the seconds left: inside a countdown that has seconds left
  the step changes neither the seconds nor the notifications, and in any state the
  seconds are afterwards either what they were or the duration of a phase the step has
  entered. \<open>pause\<close> followed by \<open>resume\<close> leaves the seconds unchanged; \<open>pause\<close> on a
  paused timer and \<open>resume\<close> on one that is not paused change nothing.
\<close>

theorem paused_suppresses_ticks:
  "(f_paused s \<longrightarrow>
      ticks (notified (wake s)) = ticks (notified s)
    \<and> (mid_phase s \<longrightarrow> f_remaining (wake s) = f_remaining s \<and> notified (wake s) = notified s)
    \<and> (f_remaining (wake s) = f_remaining s
        \<or> (\<exists>w. f_t s = Some w \<and> f_remaining (wake s) \<in> {work_s w, break_s w})))
   \<and> f_remaining (resume (pause s)) = f_remaining s
   \<and> (f_paused s \<longrightarrow> pause s = s)
   \<and> (\<not> f_paused s \<longrightarrow> resume s = s)"
  using wake_paused [of s] wake_paused_mid_phase [of s]
  by (simp add: pause_def resume_def)

theorem paused_suppresses_ticks_witness:
  "f_paused (pause (wake (snd (start 1 1 2 (init True True True)))))
   \<and> mid_phase (pause (wake (snd (start 1 1 2 (init True True True)))))
   \<and> f_remaining (wake (pause (wake (snd (start 1 1 2 (init True True True)))))) = 59
   \<and> notified (wake (pause (wake (snd (start 1 1 2 (init True True True))))))
       = [PhaseStart Work, Tick 59 Work]
   \<and> \<not> f_paused (init True True True)
   \<and> resume (init True True True) = init True True True"
proof -
  have h1: "f_paused (pause (wake (snd (start 1 1 2 (init True True True)))))"
    by (simp add: pause_def)
  have h2: "mid_phase (pause (wake (snd (start 1 1 2 (init True True True)))))"
    by code_simp
  have h3: "\<not> f_paused (init True True True)"
    by (simp add: init_def)
  have v: "f_remaining (pause (wake (snd (start 1 1 2 (init True True True))))) = 59
    \<and> notified (pause (wake (snd (start 1 1 2 (init True True True)))))
       = [PhaseStart Work, Tick 59 Work]"
    by code_simp
  show ?thesis
    using h1 h2 h3 v
      paused_suppresses_ticks [of "pause (wake (snd (start 1 1 2 (init True True True))))"]
      paused_suppresses_ticks [of "init True True True"]
    by simp
qed

text \<open>
  C10. Whatever \<open>stop\<close>, \<open>pause\<close> and \<open>resume\<close> calls reach a timer that is not running,
  the next \<open>start\<close> succeeds and clears both flags before the thread exists, so the new
  run is alive, neither paused nor stopped, and (given a positive duration and at least
  one cycle) the thread's first step ticks once: the seconds left are the work duration
  less one.
\<close>

theorem fresh_start_clears_flags:
  assumes "\<not> is_running s" and "set ops \<subseteq> {Pause, Resume, Stop}"
  shows "fst (start w b n (exec ops s)) = True
       \<and> \<not> f_stop (snd (start w b n (exec ops s)))
       \<and> \<not> f_paused (snd (start w b n (exec ops s)))
       \<and> is_running (snd (start w b n (exec ops s)))
       \<and> (0 < w \<and> 0 < n \<longrightarrow>
            f_remaining (wake (snd (start w b n (exec ops s)))) = w * 60 - 1
          \<and> notified (wake (snd (start w b n (exec ops s)))) =
              notified (exec ops s) @ (if on_phase (exec ops s) then [PhaseStart Work] else [])
                @ (if on_tick (exec ops s) then [Tick (w * 60 - 1) Work] else []))"
proof -
  have nr: "\<not> is_running (exec ops s)"
    using assms by (simp add: is_running_def flag_ops_keep_thread)
  have a: "fst (start w b n (exec ops s)) = True
       \<and> \<not> f_stop (snd (start w b n (exec ops s)))
       \<and> \<not> f_paused (snd (start w b n (exec ops s)))
       \<and> is_running (snd (start w b n (exec ops s)))"
    using nr by (simp add: start_def is_running_def)
  have b: "0 < w \<and> 0 < n \<longrightarrow>
            f_remaining (wake (snd (start w b n (exec ops s)))) = w * 60 - 1
          \<and> notified (wake (snd (start w b n (exec ops s)))) =
              notified (exec ops s) @ (if on_phase (exec ops s) then [PhaseStart Work] else [])
                @ (if on_tick (exec ops s) then [Tick (w * 60 - 1) Work] else [])"
    using first_step_of_fresh_run [OF nr, of w n b] by (simp add: notify_def)
  show ?thesis using a b by blast
qed

theorem fresh_start_clears_flags_witness:
  "\<not> is_running (init True True True) \<and> set [Stop, Pause] \<subseteq> {Pause, Resume, Stop}
   \<and> fst (start 1 1 1 (exec [Stop, Pause] (init True True True))) = True
   \<and> \<not> f_stop (snd (start 1 1 1 (exec [Stop, Pause] (init True True True))))
   \<and> \<not> f_paused (snd (start 1 1 1 (exec [Stop, Pause] (init True True True))))
   \<and> f_remaining (wake (snd (start 1 1 1 (exec [Stop, Pause] (init True True True))))) = 59
   \<and> notified (wake (snd (start 1 1 1 (exec [Stop, Pause] (init True True True)))))
       = [PhaseStart Work, Tick 59 Work]"
proof -
  have h1: "\<not> is_running (init True True True)" by (simp add: is_running_def init_def)
  have h2: "set [Stop, Pause] \<subseteq> {Pause, Resume, Stop}" by simp
  show ?thesis
    using h1 h2 fresh_start_clears_flags [OF h1 h2, of 1 1 1]
    by (simp add: init_def stop_def pause_def)
qed

section \<open>Properties of the phrase synthesizer\<close>

lemma choice_nonempty:
  "xs \<noteq> [] \<Longrightarrow> \<exists>x. choice i xs = Inr x \<and> x \<in> set xs"
  by (simp add: choice_def)

lemma contains_prefix: "contains n (n @ ys)"
proof (cases "n @ ys")
  case Nil
  then show ?thesis by simp
next
  case (Cons a list)
  have "startswith (n @ ys) n" by (simp add: startswith_def)
  then show ?thesis using Cons by simp
qed

lemma contains_mid: "contains n (xs @ n @ ys)"
proof (induction xs)
  case Nil
  show ?case using contains_prefix by simp
next
  case (Cons x xs)
  then show ?case by simp
qed

lemma assemble_shape:
  "\<exists>post. assemble opener name affect action swap tails
            = (opener @ '', '') @ name @ (''. '' @ post)"
  by (cases swap; cases "tails = []") (simp_all add: assemble_def Let_def)

lemma assemble_contains_name: "contains name (assemble opener name affect action swap tails)"
proof -
  obtain post where "assemble opener name affect action swap tails
            = (opener @ '', '') @ name @ (''. '' @ post)"
    using assemble_shape by blast
  then show ?thesis using contains_mid [of name "opener @ '', ''" "''. '' @ post"] by simp
qed

lemma assemble_nonempty: "assemble opener name affect action swap tails \<noteq> []"
  using assemble_shape [of opener name affect action swap tails] by auto

lemma opener_pool_nonempty:
  "(case OPENERS t of Some pool \<Rightarrow> pool | None \<Rightarrow> [''Let's focus'']) \<noteq> []"
  by (simp add: OPENERS_def)

lemma emotion_bucket_nonempty: "emotion_bucket em \<noteq> []"
  by (simp add: emotion_bucket_def HAPPY_def SURPRISED_def ANGRY_def SAD_def NEUTRAL_def)

lemma people_tail_total: "\<exists>t. people_tail i p = Inr t"
  by (simp add: people_tail_def choice_def TAILS_PEOPLE_0_def TAILS_PEOPLE_1_def
      TAILS_PEOPLE_many_def split: option.splits)

lemma ACTIONS_nonempty: "ACTIONS \<noteq> []"
  by (simp add: ACTIONS_def)

lemma first_attempt_total:
  "\<exists>opener affect template tails.
     opener \<in> set (case OPENERS (or_default (ctx_tod c) ''day'') of
                      Some pool \<Rightarrow> pool | None \<Rightarrow> [''Let's focus''])
   \<and> affect \<in> set (emotion_bucket (or_default (ctx_emotion c) ''neutral''))
   \<and> template \<in> set ACTIONS
   \<and> first_attempt c d =
       Inr (assemble opener (or_default (ctx_name c) ''there'') affect
              (format_len template ([10, 15, 20, 25] ! (pick_length d mod 4)))
              (coin_swap d) tails,
            \<lparr>l_name = or_default (ctx_name c) ''there'',
             l_length = [10, 15, 20, 25] ! (pick_length d mod 4),
             l_opener_pool = (case OPENERS (or_default (ctx_tod c) ''day'') of
                      Some pool \<Rightarrow> pool | None \<Rightarrow> [''Let's focus'']),
             l_affect_pool = emotion_bucket (or_default (ctx_emotion c) ''neutral''),
             l_tails = tails\<rparr>)"
proof -
  let ?op = "case OPENERS (or_default (ctx_tod c) ''day'') of
                      Some pool \<Rightarrow> pool | None \<Rightarrow> [''Let's focus'']"
  let ?af = "emotion_bucket (or_default (ctx_emotion c) ''neutral'')"
  obtain opener where o: "choice (pick_opener d) ?op = Inr opener" "opener \<in> set ?op"
    using choice_nonempty [OF opener_pool_nonempty] by blast
  obtain affect where a: "choice (pick_affect d) ?af = Inr affect" "affect \<in> set ?af"
    using choice_nonempty [OF emotion_bucket_nonempty] by blast
  obtain template where t: "choice (pick_action d) ACTIONS = Inr template" "template \<in> set ACTIONS"
    using choice_nonempty [OF ACTIONS_nonempty] by blast
  obtain pt where p: "people_tail (pick_tail d) (ctx_people c) = Inr pt"
    using people_tail_total by blast
  have l: "choice (pick_length d) [10, 15, 20, 25::int] = Inr ([10, 15, 20, 25] ! (pick_length d mod 4))"
    by (simp add: choice_def)
  have "first_attempt c d =
       Inr (assemble opener (or_default (ctx_name c) ''there'') affect
              (format_len template ([10, 15, 20, 25] ! (pick_length d mod 4)))
              (coin_swap d) (filter (\<lambda>t. t \<noteq> []) [pt, motion_tail (ctx_motion c)]),
            \<lparr>l_name = or_default (ctx_name c) ''there'',
             l_length = [10, 15, 20, 25] ! (pick_length d mod 4),
             l_opener_pool = ?op, l_affect_pool = ?af,
             l_tails = filter (\<lambda>t. t \<noteq> []) [pt, motion_tail (ctx_motion c)]\<rparr>)"
    unfolding first_attempt_def Let_def l o(1) a(1) t(1) p then_do_def by simp
  then show ?thesis using o(2) a(2) t(2) by blast
qed

lemma choose_nonrepeat_prefers_novel:
  assumes "cands \<noteq> []"
  shows "\<exists>a\<in>set cands. choose_nonrepeat i cands recent = Inr a
           \<and> (a \<in> set recent \<longrightarrow> set cands \<subseteq> set recent)"
proof (cases "filter (\<lambda>c. novel c recent) cands = []")
  case True
  then have all: "set cands \<subseteq> set recent"
    by (auto simp: novel_def filter_empty_conv)
  obtain a where "choice i cands = Inr a" "a \<in> set cands"
    using choice_nonempty [OF assms] by blast
  then show ?thesis using True all by (auto simp: choose_nonrepeat_def)
next
  case False
  obtain a where a: "choice i (filter (\<lambda>c. novel c recent) cands) = Inr a"
      "a \<in> set (filter (\<lambda>c. novel c recent) cands)"
    using choice_nonempty [OF False] by blast
  then have "a \<in> set cands" "a \<notin> set recent" by (simp_all add: novel_def)
  then show ?thesis using False a(1) by (auto simp: choose_nonrepeat_def)
qed

lemma second_attempt_total:
  assumes "l_opener_pool l \<noteq> []" and "l_affect_pool l \<noteq> []"
  shows "\<exists>opener\<in>set (l_opener_pool l). \<exists>affect\<in>set (l_affect_pool l).
         \<exists>template\<in>set ACTIONS. \<exists>len\<in>{l_length l, 12, 18, 30}.
           (affect \<in> set recent \<longrightarrow> set (l_affect_pool l) \<subseteq> set recent)
         \<and> second_attempt l d recent =
             Inr (assemble opener (l_name l) affect (format_len template len) False (l_tails l))"
proof -
  obtain opener where o: "choice (again_opener d) (l_opener_pool l) = Inr opener"
      "opener \<in> set (l_opener_pool l)"
    using choice_nonempty [OF assms(1)] by blast
  obtain affect where a: "affect \<in> set (l_affect_pool l)"
      "choose_nonrepeat (again_affect d) (l_affect_pool l) recent = Inr affect"
      "affect \<in> set recent \<longrightarrow> set (l_affect_pool l) \<subseteq> set recent"
    using choose_nonrepeat_prefers_novel [OF assms(2)] by blast
  obtain template where t: "choice (again_action d) ACTIONS = Inr template" "template \<in> set ACTIONS"
    using choice_nonempty [OF ACTIONS_nonempty] by blast
  obtain len where n: "(if coin_keep_len d then Inr (l_length l)
              else choice (again_length d) [12, 18, 30]) = Inr len" "len \<in> {l_length l, 12, 18, 30}"
  proof (cases "coin_keep_len d")
    case True
    then show ?thesis using that by simp
  next
    case False
    obtain x where "choice (again_length d) [12, 18, 30::int] = Inr x" "x \<in> set [12, 18, 30]"
      using choice_nonempty [of "[12, 18, 30::int]"] by blast
    then show ?thesis using that False by simp
  qed
  have "second_attempt l d recent =
             Inr (assemble opener (l_name l) affect (format_len template len) False (l_tails l))"
    unfolding second_attempt_def o(1) a(2) t(1) n(1) then_do_def by simp
  then show ?thesis using o(2) a(1) a(3) t(2) n(2) by blast
qed

lemma remember_capacity: "length (remember line recent) \<le> 24"
  by (simp add: remember_def deque_append_def RECENT_MAXLEN_def)

lemma remember_room: "length recent < 24 \<Longrightarrow> remember line recent = recent @ [line]"
  by (simp add: remember_def deque_append_def RECENT_MAXLEN_def)

lemma remember_full: "length recent = 24 \<Longrightarrow> remember line recent = tl recent @ [line]"
  by (cases recent) (simp_all add: remember_def deque_append_def RECENT_MAXLEN_def)

lemma get_phrase_cases:
  assumes "first_attempt c d = Inr (line1, l)"
  shows "get_phrase c d recent =
           (if line1 \<in> set recent
            then then_do (second_attempt l d recent) (\<lambda>line2. Inr (line2, remember line2 recent))
            else Inr (line1, remember line1 recent))"
  using assms by (simp add: get_phrase_def then_do_def novel_def)

text \<open>
  What one call does: the first attempt always yields a line; a novel line is returned
  as it is, any other is replaced by the line of the second attempt, whatever that line
  is. The second attempt draws its affect among the candidates absent from the memory
  unless all of them are in it, and its length is the first one or one of 12, 18, 30.
\<close>

lemma get_phrase_outcome:
  "\<exists>line1 l line.
      first_attempt c d = Inr (line1, l)
    \<and> get_phrase c d recent = Inr (line, remember line recent)
    \<and> (line1 \<notin> set recent \<longrightarrow> line = line1)
    \<and> (line1 \<in> set recent \<longrightarrow>
         second_attempt l d recent = Inr line
       \<and> (\<exists>opener\<in>set (l_opener_pool l). \<exists>affect\<in>set (l_affect_pool l).
          \<exists>template\<in>set ACTIONS. \<exists>len\<in>{l_length l, 12, 18, 30}.
            (affect \<in> set recent \<longrightarrow> set (l_affect_pool l) \<subseteq> set recent)
          \<and> line = assemble opener (l_name l) affect (format_len template len) False (l_tails l)))"
proof -
  obtain line1 l where fa: "first_attempt c d = Inr (line1, l)"
    and pools: "l_opener_pool l \<noteq> []" "l_affect_pool l \<noteq> []"
    using first_attempt_total [of c d] opener_pool_nonempty emotion_bucket_nonempty by force
  show ?thesis
  proof (cases "line1 \<in> set recent")
    case False
    then have "get_phrase c d recent = Inr (line1, remember line1 recent)"
      using get_phrase_cases [OF fa] by simp
    then show ?thesis using fa False by blast
  next
    case True
    obtain line where sa: "second_attempt l d recent = Inr line"
      and shape: "\<exists>opener\<in>set (l_opener_pool l). \<exists>affect\<in>set (l_affect_pool l).
          \<exists>template\<in>set ACTIONS. \<exists>len\<in>{l_length l, 12, 18, 30}.
            (affect \<in> set recent \<longrightarrow> set (l_affect_pool l) \<subseteq> set recent)
          \<and> line = assemble opener (l_name l) affect (format_len template len) False (l_tails l)"
      using second_attempt_total [OF pools, of recent d] by blast
    have "get_phrase c d recent = Inr (line, remember line recent)"
      using get_phrase_cases [OF fa] True sa by (simp add: then_do_def)
    then show ?thesis using fa True sa shape by blast
  qed
qed

lemma get_phrases_total:
  "\<exists>lines recent'. get_phrases calls recent = Inr (lines, recent')
      \<and> length lines = length calls
      \<and> (length recent \<le> 24 \<longrightarrow> length recent' \<le> 24)"
proof (induction calls arbitrary: recent)
  case Nil
  show ?case by simp
next
  case (Cons a calls)
  obtain c d where a: "a = (c, d)" by (cases a)
  obtain line where g: "get_phrase c d recent = Inr (line, remember line recent)"
    using get_phrase_outcome [of c d recent] by blast
  obtain lines r2 where r: "get_phrases calls (remember line recent) = Inr (lines, r2)"
      "length lines = length calls" "length r2 \<le> 24"
    using Cons.IH [of "remember line recent"] remember_capacity by blast
  show ?case using a g r by (simp add: then_do_def)
qed

subsection \<open>The lines written out\<close>

text \<open>
  The results of both attempts as plain strings: which fragment each draw picks, what
  the action templates become for a length, and how the parts are put together.
\<close>

lemma choice_eq: "xs \<noteq> [] \<Longrightarrow> choice i xs = Inr (xs ! (i mod length xs))"
  by (simp add: choice_def)

lemma rendered_actions:
  "map (\<lambda>t. format_len t n) ACTIONS =
     [''Want a '' @ str_int n @ ''-minute focus block?'',
      ''Shall I set a '' @ str_int n @ ''-minute timer?'',
      ''How about a tiny next step?'',
      ''Want a two-minute micro-plan?'',
      ''Prefer a quick summary of today?'']"
  by (simp add: ACTIONS_def startswith_def)

lemma rendered_action:
  "format_len (ACTIONS ! (i mod 5)) n =
     [''Want a '' @ str_int n @ ''-minute focus block?'',
      ''Shall I set a '' @ str_int n @ ''-minute timer?'',
      ''How about a tiny next step?'',
      ''Want a two-minute micro-plan?'',
      ''Prefer a quick summary of today?''] ! (i mod 5)"
proof -
  have l: "length ACTIONS = 5" by (simp add: ACTIONS_def)
  have "format_len (ACTIONS ! (i mod 5)) n = map (\<lambda>t. format_len t n) ACTIONS ! (i mod 5)"
    using l by simp
  then show ?thesis by (simp only: rendered_actions)
qed

lemma assemble_plain:
  "assemble opener name affect action False tails =
     opener @ '', '' @ name @ ''. '' @ affect @ ''. '' @ action
       @ (if tails = [] then [] else '' '' @ join '' '' tails)"
  by (simp add: assemble_def Let_def)

lemma assemble_swapped:
  "assemble opener name affect action True tails =
     opener @ '', '' @ name @ ''. '' @ action @ '' '' @ affect @ ''.''
       @ (if tails = [] then [] else '' '' @ join '' '' tails)"
  by (simp add: assemble_def Let_def)


lemma first_attempt_exact:
  assumes "people_tail (pick_tail d) (ctx_people c) = Inr pt"
    and "l = \<lparr>l_name = or_default (ctx_name c) ''there'',
               l_length = [10, 15, 20, 25] ! (pick_length d mod 4),
               l_opener_pool = (case OPENERS (or_default (ctx_tod c) ''day'') of
                                  Some pool \<Rightarrow> pool | None \<Rightarrow> [''Let's focus'']),
               l_affect_pool = emotion_bucket (or_default (ctx_emotion c) ''neutral''),
               l_tails = filter (\<lambda>t. t \<noteq> []) [pt, motion_tail (ctx_motion c)]\<rparr>"
  shows "first_attempt c d =
           Inr (assemble (l_opener_pool l ! (pick_opener d mod length (l_opener_pool l)))
                  (l_name l)
                  (l_affect_pool l ! (pick_affect d mod length (l_affect_pool l)))
                  (format_len (ACTIONS ! (pick_action d mod 5)) (l_length l))
                  (coin_swap d) (l_tails l), l)"
proof -
  have ne: "l_opener_pool l \<noteq> []" "l_affect_pool l \<noteq> []"
    using opener_pool_nonempty [of "or_default (ctx_tod c) ''day''"]
      emotion_bucket_nonempty [of "or_default (ctx_emotion c) ''neutral''"]
    unfolding assms(2) by simp_all
  have o: "choice (pick_opener d) (l_opener_pool l)
             = Inr (l_opener_pool l ! (pick_opener d mod length (l_opener_pool l)))"
    by (rule choice_eq [OF ne(1)])
  have a: "choice (pick_affect d) (l_affect_pool l)
             = Inr (l_affect_pool l ! (pick_affect d mod length (l_affect_pool l)))"
    by (rule choice_eq [OF ne(2)])
  have t: "choice (pick_action d) ACTIONS = Inr (ACTIONS ! (pick_action d mod 5))"
    using choice_eq [OF ACTIONS_nonempty] by (simp add: ACTIONS_def)
  have n: "choice (pick_length d) [10, 15, 20, 25::int] = Inr ([10, 15, 20, 25] ! (pick_length d mod 4))"
    by (simp add: choice_def)
  have f: "l_name l = or_default (ctx_name c) ''there''"
      "l_length l = [10, 15, 20, 25] ! (pick_length d mod 4)"
      "l_opener_pool l = (case OPENERS (or_default (ctx_tod c) ''day'') of
                                  Some pool \<Rightarrow> pool | None \<Rightarrow> [''Let's focus''])"
      "l_affect_pool l = emotion_bucket (or_default (ctx_emotion c) ''neutral'')"
      "l_tails l = filter (\<lambda>t. t \<noteq> []) [pt, motion_tail (ctx_motion c)]"
    unfolding assms(2) by simp_all
  show ?thesis
    unfolding first_attempt_def Let_def n f [symmetric] o a t assms(1) then_do_def
    using assms(2) f by simp
qed

lemma second_attempt_exact:
  assumes "l_opener_pool l \<noteq> []" and "l_affect_pool l \<noteq> []"
    and "cands = (if \<exists>a\<in>set (l_affect_pool l). a \<notin> set recent
                  then filter (\<lambda>a. a \<notin> set recent) (l_affect_pool l)
                  else l_affect_pool l)"
  shows "second_attempt l d recent =
           Inr (assemble (l_opener_pool l ! (again_opener d mod length (l_opener_pool l)))
                  (l_name l)
                  (cands ! (again_affect d mod length cands))
                  (format_len (ACTIONS ! (again_action d mod 5))
                     (if coin_keep_len d then l_length l else [12, 18, 30] ! (again_length d mod 3)))
                  False (l_tails l))"
proof -
  have o: "choice (again_opener d) (l_opener_pool l)
             = Inr (l_opener_pool l ! (again_opener d mod length (l_opener_pool l)))"
    by (rule choice_eq [OF assms(1)])
  have ne: "cands \<noteq> []"
    using assms(2,3) by (auto simp: filter_empty_conv)
  have cn: "(if filter (\<lambda>c. novel c recent) (l_affect_pool l) \<noteq> []
             then filter (\<lambda>c. novel c recent) (l_affect_pool l) else l_affect_pool l) = cands"
    using assms(3) by (auto simp: novel_def filter_empty_conv)
  have a: "choose_nonrepeat (again_affect d) (l_affect_pool l) recent
             = Inr (cands ! (again_affect d mod length cands))"
    unfolding choose_nonrepeat_def Let_def cn by (rule choice_eq [OF ne])
  have t: "choice (again_action d) ACTIONS = Inr (ACTIONS ! (again_action d mod 5))"
    using choice_eq [OF ACTIONS_nonempty] by (simp add: ACTIONS_def)
  have n: "(if coin_keep_len d then Inr (l_length l) else choice (again_length d) [12, 18, 30])
             = Inr (if coin_keep_len d then l_length l else [12, 18, 30] ! (again_length d mod 3))"
    by (simp add: choice_def)
  show ?thesis
    unfolding second_attempt_def o a t n then_do_def by simp
qed

text \<open>
  C8. The line of the first attempt is tested against the memory once. When it equals an
  entry, the result is the line put together from the second set of draws: a new opener,
  an affect drawn among the candidates that are not in the memory (among all candidates
  when every one is in it), a new action template and the first length or one of 12, 18,
  30; that second line is the result whether or not it is in the memory too. Otherwise
  the first line is the result. The result is appended to the memory, which holds at most
  24 lines afterwards and loses its oldest entry when it was full.
\<close>

theorem novelty_single_retry:
  "\<exists>pt l sfx opener1 affect1 action1 line1 cands opener2 affect2 len2 action2 line.
      people_tail (pick_tail d) (ctx_people c) = Inr pt
    \<and> l = \<lparr>l_name = or_default (ctx_name c) ''there'',
            l_length = [10, 15, 20, 25] ! (pick_length d mod 4),
            l_opener_pool = (case OPENERS (or_default (ctx_tod c) ''day'') of
                               Some pool \<Rightarrow> pool | None \<Rightarrow> [''Let's focus'']),
            l_affect_pool = emotion_bucket (or_default (ctx_emotion c) ''neutral''),
            l_tails = filter (\<lambda>t. t \<noteq> []) [pt, motion_tail (ctx_motion c)]\<rparr>
    \<and> sfx = (if l_tails l = [] then [] else '' '' @ join '' '' (l_tails l))
    \<and> opener1 = l_opener_pool l ! (pick_opener d mod length (l_opener_pool l))
    \<and> affect1 = l_affect_pool l ! (pick_affect d mod length (l_affect_pool l))
    \<and> action1 = [''Want a '' @ str_int (l_length l) @ ''-minute focus block?'',
                  ''Shall I set a '' @ str_int (l_length l) @ ''-minute timer?'',
                  ''How about a tiny next step?'',
                  ''Want a two-minute micro-plan?'',
                  ''Prefer a quick summary of today?''] ! (pick_action d mod 5)
    \<and> line1 = opener1 @ '', '' @ l_name l @ ''. ''
               @ (if coin_swap d then action1 @ '' '' @ affect1 @ ''.''
                  else affect1 @ ''. '' @ action1) @ sfx
    \<and> first_attempt c d = Inr (line1, l)
    \<and> cands = (if \<exists>a\<in>set (l_affect_pool l). a \<notin> set recent
                then filter (\<lambda>a. a \<notin> set recent) (l_affect_pool l)
                else l_affect_pool l)
    \<and> opener2 = l_opener_pool l ! (again_opener d mod length (l_opener_pool l))
    \<and> affect2 = cands ! (again_affect d mod length cands)
    \<and> len2 = (if coin_keep_len d then l_length l else [12, 18, 30] ! (again_length d mod 3))
    \<and> action2 = [''Want a '' @ str_int len2 @ ''-minute focus block?'',
                  ''Shall I set a '' @ str_int len2 @ ''-minute timer?'',
                  ''How about a tiny next step?'',
                  ''Want a two-minute micro-plan?'',
                  ''Prefer a quick summary of today?''] ! (again_action d mod 5)
    \<and> line = (if line1 \<in> set recent
               then opener2 @ '', '' @ l_name l @ ''. '' @ affect2 @ ''. '' @ action2 @ sfx
               else line1)
    \<and> get_phrase c d recent = Inr (line, remember line recent)
    \<and> length (remember line recent) \<le> 24
    \<and> (length recent < 24 \<longrightarrow> remember line recent = recent @ [line])
    \<and> (length recent = 24 \<longrightarrow> remember line recent = tl recent @ [line])"
proof -
  obtain pt where pt: "people_tail (pick_tail d) (ctx_people c) = Inr pt"
    using people_tail_total by blast
  define l where "l = \<lparr>l_name = or_default (ctx_name c) ''there'',
            l_length = [10, 15, 20, 25] ! (pick_length d mod 4),
            l_opener_pool = (case OPENERS (or_default (ctx_tod c) ''day'') of
                               Some pool \<Rightarrow> pool | None \<Rightarrow> [''Let's focus'']),
            l_affect_pool = emotion_bucket (or_default (ctx_emotion c) ''neutral''),
            l_tails = filter (\<lambda>t. t \<noteq> []) [pt, motion_tail (ctx_motion c)]\<rparr>"
  define sfx where "sfx = (if l_tails l = [] then [] else '' '' @ join '' '' (l_tails l))"
  define opener1 where "opener1 = l_opener_pool l ! (pick_opener d mod length (l_opener_pool l))"
  define affect1 where "affect1 = l_affect_pool l ! (pick_affect d mod length (l_affect_pool l))"
  define action1 where "action1 = [''Want a '' @ str_int (l_length l) @ ''-minute focus block?'',
                  ''Shall I set a '' @ str_int (l_length l) @ ''-minute timer?'',
                  ''How about a tiny next step?'',
                  ''Want a two-minute micro-plan?'',
                  ''Prefer a quick summary of today?''] ! (pick_action d mod 5)"
  define line1 where "line1 = opener1 @ '', '' @ l_name l @ ''. ''
               @ (if coin_swap d then action1 @ '' '' @ affect1 @ ''.''
                  else affect1 @ ''. '' @ action1) @ sfx"
  define cands where "cands = (if \<exists>a\<in>set (l_affect_pool l). a \<notin> set recent
                then filter (\<lambda>a. a \<notin> set recent) (l_affect_pool l)
                else l_affect_pool l)"
  define opener2 where "opener2 = l_opener_pool l ! (again_opener d mod length (l_opener_pool l))"
  define affect2 where "affect2 = cands ! (again_affect d mod length cands)"
  define len2 where "len2 = (if coin_keep_len d then l_length l
                             else [12, 18, 30] ! (again_length d mod 3))"
  define action2 where "action2 = [''Want a '' @ str_int len2 @ ''-minute focus block?'',
                  ''Shall I set a '' @ str_int len2 @ ''-minute timer?'',
                  ''How about a tiny next step?'',
                  ''Want a two-minute micro-plan?'',
                  ''Prefer a quick summary of today?''] ! (again_action d mod 5)"
  define line where "line = (if line1 \<in> set recent
               then opener2 @ '', '' @ l_name l @ ''. '' @ affect2 @ ''. '' @ action2 @ sfx
               else line1)"
  have ne: "l_opener_pool l \<noteq> []" "l_affect_pool l \<noteq> []"
    using opener_pool_nonempty [of "or_default (ctx_tod c) ''day''"]
      emotion_bucket_nonempty [of "or_default (ctx_emotion c) ''neutral''"]
    unfolding l_def by simp_all
  have a1: "format_len (ACTIONS ! (pick_action d mod 5)) (l_length l) = action1"
    unfolding action1_def by (rule rendered_action)
  have a2: "format_len (ACTIONS ! (again_action d mod 5)) len2 = action2"
    unfolding action2_def by (rule rendered_action)
  have fa: "first_attempt c d = Inr (line1, l)"
    unfolding first_attempt_exact [OF pt l_def] a1 opener1_def [symmetric] affect1_def [symmetric]
    by (cases "coin_swap d")
       (simp_all add: assemble_plain assemble_swapped line1_def sfx_def)
  have sa: "second_attempt l d recent
               = Inr (opener2 @ '', '' @ l_name l @ ''. '' @ affect2 @ ''. '' @ action2 @ sfx)"
    unfolding second_attempt_exact [OF ne cands_def] len2_def [symmetric] a2
      opener2_def [symmetric] affect2_def [symmetric]
    by (simp add: assemble_plain sfx_def)
  have gp: "get_phrase c d recent = Inr (line, remember line recent)"
    using get_phrase_cases [OF fa, of recent] sa by (simp add: line_def then_do_def)
  show ?thesis
    using pt l_def sfx_def opener1_def affect1_def action1_def line1_def fa cands_def
      opener2_def affect2_def len2_def action2_def line_def gp
      remember_capacity [of line recent] remember_room [of recent line]
      remember_full [of recent line]
    by blast
qed

theorem novelty_single_retry_witness:
  "get_phrase sample_ctx sample_draws [] = Inr (sample_first, [sample_first])
   \<and> sample_first \<in> set (''oldest'' # replicate 21 ''x'' @ [sample_second, sample_first])
   \<and> length (''oldest'' # replicate 21 ''x'' @ [sample_second, sample_first]) = 24
   \<and> get_phrase sample_ctx sample_draws
         (''oldest'' # replicate 21 ''x'' @ [sample_second, sample_first])
        = Inr (sample_second, replicate 21 ''x'' @ [sample_second, sample_first, sample_second])
   \<and> get_phrase sample_ctx sample_draws [''Anger is just energy'', sample_first]
        = Inr (sample_preferred, [''Anger is just energy'', sample_first, sample_preferred])
   \<and> get_phrase sample_ctx sample_draws (ANGRY @ [sample_first])
        = Inr (sample_second, ANGRY @ [sample_first, sample_second])"
proof -
  have a: "get_phrase sample_ctx sample_draws [] = Inr (sample_first, [sample_first])"
    by code_simp
  have m: "sample_first \<in> set (''oldest'' # replicate 21 ''x'' @ [sample_second, sample_first])"
    by simp
  have n: "length (''oldest'' # replicate 21 ''x'' @ [sample_second, sample_first]) = 24"
    by simp
  have b: "get_phrase sample_ctx sample_draws
         (''oldest'' # replicate 21 ''x'' @ [sample_second, sample_first])
        = Inr (sample_second, replicate 21 ''x'' @ [sample_second, sample_first, sample_second])"
    by code_simp
  have c: "get_phrase sample_ctx sample_draws [''Anger is just energy'', sample_first]
        = Inr (sample_preferred, [''Anger is just energy'', sample_first, sample_preferred])"
    by code_simp
  have d: "get_phrase sample_ctx sample_draws (ANGRY @ [sample_first])
        = Inr (sample_second, ANGRY @ [sample_first, sample_second])"
    by code_simp
  have w1: "\<exists>line. get_phrase sample_ctx sample_draws [] = Inr (line, remember line [])"
    using novelty_single_retry [where c = sample_ctx and d = sample_draws and recent = "[]"]
    by blast
  have w2: "\<exists>line. get_phrase sample_ctx sample_draws
                    (''oldest'' # replicate 21 ''x'' @ [sample_second, sample_first])
                 = Inr (line, tl (''oldest'' # replicate 21 ''x'' @ [sample_second, sample_first])
                                @ [line])"
    using n novelty_single_retry [where c = sample_ctx and d = sample_draws
        and recent = "''oldest'' # replicate 21 ''x'' @ [sample_second, sample_first]"]
    by metis
  have w3: "\<exists>line. get_phrase sample_ctx sample_draws [''Anger is just energy'', sample_first]
                 = Inr (line, remember line [''Anger is just energy'', sample_first])"
    using novelty_single_retry [where c = sample_ctx and d = sample_draws
        and recent = "[''Anger is just energy'', sample_first]"]
    by blast
  have w4: "\<exists>line. get_phrase sample_ctx sample_draws (ANGRY @ [sample_first])
                 = Inr (line, remember line (ANGRY @ [sample_first]))"
    using novelty_single_retry [where c = sample_ctx and d = sample_draws
        and recent = "ANGRY @ [sample_first]"]
    by blast
  show ?thesis
    using a b c d m n w1 w2 w3 w4 by (simp only: simp_thms)
qed

text \<open>
  C9. For every context, the empty one included, and every memory and run of the random
  draws, \<^verbatim>\<open>get_phrase\<close> raises nothing and returns a non-empty line; when the name is
  absent the line contains the default address term \<^verbatim>\<open>there\<close>.
\<close>

theorem get_phrase_total:
  "\<exists>line recent'. get_phrase c d recent = Inr (line, recent') \<and> line \<noteq> []
     \<and> (ctx_name c = None \<longrightarrow> contains ''there'' line)"
proof -
  obtain line1 l line where fa: "first_attempt c d = Inr (line1, l)"
    and gp: "get_phrase c d recent = Inr (line, remember line recent)"
    and pick: "line1 \<notin> set recent \<longrightarrow> line = line1"
       "line1 \<in> set recent \<longrightarrow> (\<exists>opener affect action.
            line = assemble opener (l_name l) affect action False (l_tails l))"
    using get_phrase_outcome [of c d recent] by blast
  obtain opener affect action swap tails where
    l1: "line1 = assemble opener (or_default (ctx_name c) ''there'') affect action swap tails"
    and nm: "l_name l = or_default (ctx_name c) ''there''"
    using first_attempt_total [of c d] fa by auto
  obtain o2 a2 ac2 sw2 tl2 where
    shape: "line = assemble o2 (or_default (ctx_name c) ''there'') a2 ac2 sw2 tl2"
    using pick l1 nm by (cases "line1 \<in> set recent") auto
  have "line \<noteq> []" using shape assemble_nonempty by simp
  moreover have "ctx_name c = None \<longrightarrow> contains ''there'' line"
    using shape assemble_contains_name [of "''there''" o2 a2 ac2 sw2 tl2]
    by (simp add: or_default_def)
  ultimately show ?thesis using gp
    by (intro exI [of _ line] exI [of _ "remember line recent"]) simp
qed

theorem get_phrase_total_witness:
  "ctx_name empty_ctx = None
   \<and> get_phrase empty_ctx draws0 [] = Inr (line0, [line0])
   \<and> (\<exists>line recent'. get_phrase empty_ctx draws0 [] = Inr (line, recent') \<and> line \<noteq> []
         \<and> contains ''there'' line)"
proof -
  have n: "ctx_name empty_ctx = None" by (simp add: empty_ctx_def)
  have v: "get_phrase empty_ctx draws0 [] = Inr (line0, [line0])" by code_simp
  show ?thesis using n v get_phrase_total [of empty_ctx draws0 "[]"] by simp
qed

section \<open>Properties of the orchestrator\<close>

lemma startswith_set: "startswith h n \<Longrightarrow> set n \<subseteq> set h"
  unfolding startswith_def using set_take_subset [of "length n" h] by metis

lemma contains_set: "contains n h \<Longrightarrow> set n \<subseteq> set h"
proof (induction h)
  case Nil
  then show ?case by simp
next
  case (Cons c cs)
  then show ?case using startswith_set [of "c # cs" n] by auto
qed

lemma set_dropWhile_back: "set l \<subseteq> set (dropWhile P l) \<union> {c. P c}"
proof -
  have "set l = set (takeWhile P l) \<union> set (dropWhile P l)"
    by (metis set_append takeWhile_dropWhile_id)
  moreover have "set (takeWhile P l) \<subseteq> {c. P c}"
    by (auto dest: set_takeWhileD)
  ultimately show ?thesis by auto
qed

lemma set_strip_back: "set l \<subseteq> set (strip l) \<union> {c. isspace c}"
proof -
  have "set l \<subseteq> set (dropWhile isspace l) \<union> {c. isspace c}"
    by (rule set_dropWhile_back)
  moreover have "set (dropWhile isspace l)
      \<subseteq> set (dropWhile isspace (rev (dropWhile isspace l))) \<union> {c. isspace c}"
    using set_dropWhile_back [of "rev (dropWhile isspace l)" isspace] by simp
  ultimately show ?thesis by (auto simp: strip_def)
qed

lemma mute_is_no_farewell:
  assumes "strip l = ''mute'' \<or> strip l = ''unmute''"
  shows "\<not> contains ''quit'' l \<and> \<not> contains ''goodbye'' l"
proof -
  have sp: "\<not> isspace (CHR ''q'')" "\<not> isspace (CHR ''g'')" by (simp_all add: isspace_def)
  have "CHR ''q'' \<notin> set l"
    using set_strip_back [of l] assms sp by auto
  moreover have "CHR ''g'' \<notin> set l"
    using set_strip_back [of l] assms sp by auto
  ultimately show ?thesis using contains_set [of "''quit''" l] contains_set [of "''goodbye''" l]
    by auto
qed

lemma speak_muted:
  "muted s \<Longrightarrow> speak cfg text s = s\<lparr>trace := trace s @ [Console (''[TTS muted] '' @ text)]\<rparr>"
  by (simp add: speak_def console_def)

lemma speak_unmuted:
  "\<not> muted s \<Longrightarrow> speak cfg text s =
     s\<lparr>trace := trace s @ Console (''[TTS] '' @ text) # (if have_say cfg then [Audible text] else [])\<rparr>"
  by (simp add: speak_def say_def console_def)

lemma mute_command:
  assumes "strip (lower user) = ''mute''"
  shows "commands cfg i mood user s =
           (Continues, s\<lparr>muted := True, trace := trace s @ [Console ''[VOICE] muted.'']\<rparr>)"
  using assms mute_is_no_farewell [of "lower user"]
  by (simp add: commands_def console_def)

lemma unmute_command:
  assumes "strip (lower user) = ''unmute''"
  shows "commands cfg i mood user s =
           (Continues, s\<lparr>muted := False,
              trace := trace s @ Console ''[TTS] Okay, I can speak again.''
                 # (if have_say cfg then [Audible ''Okay, I can speak again.''] else [])\<rparr>)"
  using assms mute_is_no_farewell [of "lower user"]
  by (simp add: commands_def speak_unmuted)

lemma hushed_refl: "muted s \<Longrightarrow> hushed s s"
  by (simp add: hushed_def)

lemma hushed_speak: "hushed s s1 \<Longrightarrow> hushed s (speak cfg text s1)"
  by (simp add: hushed_def speak_muted audibles_def)

lemma hushed_console: "hushed s s1 \<Longrightarrow> hushed s (console line s1)"
  by (simp add: hushed_def console_def audibles_def)

lemma hushed_fields:
  "hushed s s1 \<Longrightarrow> hushed s (s1\<lparr>moods := m\<rparr>)"
  "hushed s s1 \<Longrightarrow> hushed s (s1\<lparr>timer_deadline := d\<rparr>)"
  "hushed s s1 \<Longrightarrow> hushed s (s1\<lparr>paused := p\<rparr>)"
  "hushed s s1 \<Longrightarrow> hushed s (s1\<lparr>ctx_hist := h\<rparr>)"
  "hushed s s1 \<Longrightarrow> hushed s (s1\<lparr>muted := True\<rparr>)"
  by (simp_all add: hushed_def)

lemma hushed_sense: "hushed s s1 \<Longrightarrow> hushed s (snd (snd (sense cfg i s1)))"
  by (auto simp: sense_def Let_def hushed_speak hushed_console hushed_fields split: camera.splits)

lemma hushed_timer_check: "hushed s s1 \<Longrightarrow> hushed s (timer_check cfg i s1)"
  by (simp add: timer_check_def hushed_speak hushed_fields)

lemma hushed_listen: "hushed s s1 \<Longrightarrow> hushed s (listen cfg i s1)"
  by (simp add: listen_def Let_def hushed_speak hushed_console)

lemma hushed_converse: "hushed s s1 \<Longrightarrow> hushed s (snd (converse cfg i mood user s1))"
  by (auto simp: converse_def Let_def hushed_speak hushed_fields split: sum.splits)

lemma hushed_commands:
  assumes "hushed s s1" and "strip (lower user) \<noteq> ''unmute''"
  shows "hushed s (snd (commands cfg i mood user s1))"
  using assms
  by (auto simp: commands_def Let_def hushed_speak hushed_console hushed_fields hushed_converse
      split: sum.splits)

lemma hushed_iteration:
  assumes "hushed s s1" and "\<not> says_unmute i"
  shows "hushed s (snd (iteration cfg i s1))"
proof -
  obtain fl mood s2 where se: "sense cfg i s1 = (fl, mood, s2)"
    by (cases "sense cfg i s1")
  have h2: "hushed s s2" using hushed_sense [OF assms(1), of cfg i] se by simp
  show ?thesis
  proof (cases fl)
    case Continues
    have h3: "hushed s (listen cfg i (timer_check cfg i s2))"
      using h2 by (simp add: hushed_listen hushed_timer_check)
    show ?thesis
    proof (cases "truthy (heard i)")
      case False
      then show ?thesis using se Continues h3 by (simp add: iteration_def)
    next
      case True
      then obtain u where u: "heard i = Some u" by (auto simp: truthy_def split: option.splits)
      then have "strip (lower u) \<noteq> ''unmute''" using assms(2) by (simp add: says_unmute_def)
      then show ?thesis
        using se Continues True u hushed_commands [OF h3, of u cfg i mood]
        by (simp add: iteration_def)
    qed
  next
    case Breaks
    then show ?thesis using se h2 by (simp add: iteration_def)
  next
    case (Raises e)
    then show ?thesis using se h2 by (simp add: iteration_def)
  qed
qed

lemma hushed_run:
  assumes "hushed s s1" and "\<forall>j\<in>set inputs. \<not> says_unmute j"
  shows "hushed s (snd (run cfg inputs s1))"
  using assms
proof (induction inputs arbitrary: s1)
  case Nil
  then show ?case by simp
next
  case (Cons i rest)
  obtain fl s2 where it: "iteration cfg i s1 = (fl, s2)" by (cases "iteration cfg i s1")
  have h2: "hushed s s2" using hushed_iteration [OF Cons.prems(1), of i cfg] Cons.prems(2) it by simp
  show ?case
  proof (cases fl)
    case Continues
    then show ?thesis using it Cons.IH [OF h2] Cons.prems(2) by simp
  next
    case Breaks
    then show ?thesis using it h2 by simp
  next
    case (Raises e)
    then show ?thesis using it h2 by simp
  qed
qed

text \<open>
  C5. The utterance \<^verbatim>\<open>mute\<close> (in any case, with surrounding blanks) sets the muted
  flag and is acknowledged on the console only. A muted \<^verbatim>\<open>_speak\<close> writes its console
  line and nothing else, and however many passes follow, whatever is said in them short
  of \<^verbatim>\<open>unmute\<close>, the session stays muted and the audible output is not invoked
  once. The utterance \<^verbatim>\<open>unmute\<close> clears the flag and its confirmation goes to the
  console and to the audible output (\<^verbatim>\<open>_say\<close>, when the session has one), as every
  later \<^verbatim>\<open>_speak\<close> does.
\<close>

theorem mute_gates_audible_output:
  "(strip (lower user) = ''mute'' \<longrightarrow>
      commands cfg i mood user s =
        (Continues, s\<lparr>muted := True, trace := trace s @ [Console ''[VOICE] muted.'']\<rparr>))
   \<and> (muted s \<longrightarrow>
        speak cfg text s = s\<lparr>trace := trace s @ [Console (''[TTS muted] '' @ text)]\<rparr>)
   \<and> (muted s \<and> (\<forall>j\<in>set inputs. \<not> says_unmute j) \<longrightarrow>
        muted (snd (run cfg inputs s))
      \<and> audibles (trace (snd (run cfg inputs s))) = audibles (trace s))
   \<and> (strip (lower user) = ''unmute'' \<longrightarrow>
        commands cfg i mood user s =
          (Continues, s\<lparr>muted := False,
             trace := trace s @ Console ''[TTS] Okay, I can speak again.''
                # (if have_say cfg then [Audible ''Okay, I can speak again.''] else [])\<rparr>))
   \<and> (\<not> muted s \<longrightarrow>
        speak cfg text s =
          s\<lparr>trace := trace s @ Console (''[TTS] '' @ text)
                # (if have_say cfg then [Audible text] else [])\<rparr>)"
proof -
  have "muted s \<and> (\<forall>j\<in>set inputs. \<not> says_unmute j) \<longrightarrow>
        muted (snd (run cfg inputs s))
      \<and> audibles (trace (snd (run cfg inputs s))) = audibles (trace s)"
    using hushed_run [OF hushed_refl, of s inputs cfg] by (simp add: hushed_def)
  then show ?thesis
    using mute_command [of user cfg i mood s] unmute_command [of user cfg i mood s]
      speak_muted [of s cfg "text"] speak_unmuted [of s cfg "text"]
    by blast
qed

theorem mute_gates_audible_output_witness:
  "strip (lower '' MUTE  '') = ''mute''
   \<and> commands (session None) (heard_at '' MUTE  '') None '' MUTE  '' init_mirror
       = (Continues, init_mirror\<lparr>muted := True, trace := [Console ''[VOICE] muted.'']\<rparr>)
   \<and> muted muted_mirror
   \<and> \<not> says_unmute (heard_at ''hello'')
   \<and> speak (session None) ''Okay.'' muted_mirror
       = muted_mirror\<lparr>trace := [Console ''[TTS muted] Okay.'']\<rparr>
   \<and> audibles (trace (snd (run (session None) [heard_at ''hello''] muted_mirror))) = []
   \<and> strip (lower ''unmute'') = ''unmute''
   \<and> commands (session None) (heard_at ''unmute'') None ''unmute'' muted_mirror
       = (Continues, muted_mirror\<lparr>muted := False,
            trace := [Console ''[TTS] Okay, I can speak again.'',
                      Audible ''Okay, I can speak again.'']\<rparr>)
   \<and> \<not> muted init_mirror
   \<and> speak (session None) ''Okay.'' init_mirror
       = init_mirror\<lparr>trace := [Console ''[TTS] Okay.'', Audible ''Okay.'']\<rparr>"
proof -
  have h1: "strip (lower '' MUTE  '') = ''mute''" by code_simp
  have h2: "muted muted_mirror" by (simp add: muted_mirror_def)
  have h3: "\<forall>j\<in>set [heard_at ''hello'']. \<not> says_unmute j" by code_simp
  have h4: "strip (lower ''unmute'') = ''unmute''" by code_simp
  have h5: "\<not> muted init_mirror" by (simp add: init_mirror_def)
  have t0: "trace init_mirror = []" "trace muted_mirror = []" "have_say (session None)"
    by (simp_all add: init_mirror_def muted_mirror_def session_def)
  show ?thesis
    using h1 h2 h3 h4 h5 t0
      mute_gates_audible_output [of "'' MUTE  ''" "session None" "heard_at '' MUTE  ''" None
        init_mirror "''Okay.''" "[]"]
      mute_gates_audible_output [of "''unmute''" "session None" "heard_at ''unmute''" None
        muted_mirror "''Okay.''" "[heard_at ''hello'']"]
    by (simp add: audibles_def)
qed

lemma decimal_snoc: "decimal (s @ [c]) = 10 * decimal s + (int (of_char c) - 48)"
  by (simp add: decimal_def)

lemma decimal_nonneg: "list_all is_ascii_digit s \<Longrightarrow> 0 \<le> decimal s"
proof (induction s rule: rev_induct)
  case Nil
  show ?case by (simp add: decimal_def)
next
  case (snoc c s)
  then have "0 \<le> decimal s" "48 \<le> (of_char c :: nat)"
    by (simp_all add: is_ascii_digit_def Let_def)
  then show ?case by (simp add: decimal_snoc)
qed

lemma startswith_split: "startswith l p \<Longrightarrow> l = p @ drop (length p) l"
  unfolding startswith_def by (metis append_take_drop_id)

lemma strip_keeps_prefix:
  assumes "startswith l p" and "p \<noteq> []" and "\<not> isspace (hd p)" and "\<not> isspace (last p)"
  shows "startswith (strip l) p"
proof -
  obtain r where l: "l = p @ r" using startswith_split [OF assms(1)] by blast
  obtain a p' where p: "p = a # p'" using assms(2) by (cases p) auto
  have d1: "dropWhile isspace l = l" using l p assms(3) by simp
  have "\<exists>zs. dropWhile isspace (rev l) = zs @ rev p"
  proof (cases "\<forall>x\<in>set (rev r). isspace x")
    case True
    have "dropWhile isspace (rev p) = rev p"
      using assms(2,4) by (cases "rev p") (auto simp: last_rev [symmetric] hd_rev)
    then have "dropWhile isspace (rev l) = rev p"
      using True l by (simp add: dropWhile_append)
    then show ?thesis by simp
  next
    case False
    then have "dropWhile isspace (rev l) = dropWhile isspace (rev r) @ rev p"
      using l by (auto simp: dropWhile_append)
    then show ?thesis by blast
  qed
  then obtain zs where "dropWhile isspace (rev l) = zs @ rev p" by blast
  then have "strip l = p @ rev zs" using d1 by (simp add: strip_def)
  then show ?thesis by (simp add: startswith_def)
qed

lemma start_timer_is_no_mute:
  assumes "startswith l ''start timer''"
  shows "strip l \<noteq> ''mute'' \<and> strip l \<noteq> ''unmute''"
proof -
  have "startswith (strip l) ''start timer''"
    using strip_keeps_prefix [OF assms] by (simp add: isspace_def)
  then show ?thesis by (auto simp: startswith_def)
qed

lemma spoken_digits_nonempty: "spoken_digits l \<noteq> []"
  by (simp add: spoken_digits_def Let_def)

text \<open>
  An integer from 0 up to, but not including, \<open>2^1024 - 2^970\<close> rounds to a finite
  double: the conversion in \<^verbatim>\<open>time.time() + n\<close> does not raise.
\<close>

lemma halvings_nonneg: "0 \<le> halvings k x"
  by (induction k arbitrary: x) simp_all

lemma halvings_bound: "x < 2 ^ Suc k \<Longrightarrow> halvings (Suc k) x \<le> int k"
proof (induction k arbitrary: x)
  case 0
  then show ?case by simp
next
  case (Suc k)
  show ?case
  proof (cases "2 \<le> x")
    case True
    have "x / 2 < 2 ^ Suc k" using Suc.prems by simp
    then have "halvings (Suc k) (x / 2) \<le> int k" by (rule Suc.IH)
    then show ?thesis using True by simp
  next
    case False
    then show ?thesis by simp
  qed
qed

lemma round_half_even_le: "of_int (round_half_even q) \<le> q + 1 / 2"
proof -
  have "of_int \<lfloor>q\<rfloor> \<le> q" by simp
  moreover have "\<not> q - of_int \<lfloor>q\<rfloor> < 1 / 2 \<Longrightarrow> of_int \<lfloor>q\<rfloor> + 1 \<le> q + 1 / 2" by linarith
  ultimately show ?thesis
    unfolding round_half_even_def Let_def by (simp only: of_int_add of_int_1 split: if_splits) linarith
qed

lemma int_to_double_finite:
  assumes "0 \<le> n" and "n < 2 ^ 1024 - 2 ^ 970"
  shows "\<exists>v. to_double (of_int n) = Finite v"
proof (cases "n = 0")
  case True
  then show ?thesis by (simp add: to_double_def)
next
  case False
  let ?a = "real_of_int n"
  have a1: "1 \<le> ?a" using assms(1) False by simp
  have alt: "?a < 2 ^ 1024 - 2 ^ 970"
  proof -
    have "?a < real_of_int (2 ^ 1024 - 2 ^ 970)" using assms(2) by (simp only: of_int_less_iff)
    then show ?thesis by simp
  qed
  then have "?a < 2 ^ Suc 1023" by simp
  then have eb: "halvings (Suc 1023) ?a \<le> int 1023" by (rule halvings_bound)
  let ?e = "binade ?a"
  have e: "0 \<le> ?e" "?e \<le> 1023"
    using a1 eb halvings_nonneg [of 1024 ?a] by (simp_all add: binade_def)
  let ?m = "round_half_even (?a / 2 powi (?e - 52))"
  have top: "?m < 2 ^ 53" if "?e = 1023"
  proof -
    define q where "q = ?a / 2 powi (?e - 52)"
    have "q = ?a / 2 ^ 971" using that by (simp add: q_def)
    moreover have "?a / 2 ^ 971 < (2 ^ 1024 - 2 ^ 970) / 2 ^ 971"
      using alt by (simp only: divide_strict_right_mono zero_less_power zero_less_numeral)
    moreover have "((2::real) ^ 1024 - 2 ^ 970) / 2 ^ 971 = 2 ^ 53 - 1 / 2" by simp
    ultimately have "q + 1 / 2 < 2 ^ 53" by linarith
    then have "real_of_int (round_half_even q) < 2 ^ 53"
      using round_half_even_le [of q] by linarith
    then have "real_of_int (round_half_even q) < real_of_int (2 ^ 53)" by simp
    then have "round_half_even q < 2 ^ 53" by (simp only: of_int_less_iff)
    then show ?thesis by (simp add: q_def)
  qed
  have "\<not> (1024 \<le> ?e \<or> (?e = 1023 \<and> 2 ^ 53 \<le> ?m))"
    using e(2) top by auto
  moreover have "0 < ?a" "\<bar>?a\<bar> = ?a" using a1 by simp_all
  ultimately show ?thesis
    using False by (simp add: to_double_def nearest_at_def double_of_def)
qed

text \<open>
  The sum is a double, not the exact sum: at the clock reading \<open>2^53\<close> one second more
  is the same double, and three seconds more are four (ties go to the even mantissa).
\<close>

lemma deadline_is_rounded:
  "float_add_int 9007199254740992 1 = Inr (Finite 9007199254740992)
   \<and> float_add_int 9007199254740992 3 = Inr (Finite 9007199254740996)"
  by code_simp

lemma pass_leaves_timer: "snd (snd (pass_with_timer cfg i (s, t))) = t"
  by (simp add: pass_with_timer_def split: prod.splits)

text \<open>
  C3, amended. An utterance whose lower-cased form starts with \<^verbatim>\<open>start timer\<close> and
  holds neither \<^verbatim>\<open>quit\<close> nor \<^verbatim>\<open>goodbye\<close>, whose digits are all among 0 to 9 and
  write a number N (25 when there is no digit) within the interpreter's limit on integer
  strings and below \<open>2^1024 - 2^970\<close>, makes the loop set its own deadline to the float
  sum of the clock reading and N (that is N seconds ahead exactly when N and the sum are
  doubles), clear its own paused flag and speak \<^verbatim>\<open>Timer set for N seconds.\<close> The
  deadline and the flag are locals of \<^verbatim>\<open>run\<close>: a countdown timer of utils/timer.py is
  left as it was, so no run of it is started and no phase or count of seconds is set.
\<close>

theorem start_timer_sets_deadline:
  assumes "startswith (lower user) ''start timer''"
    and "\<not> contains ''quit'' (lower user)" and "\<not> contains ''goodbye'' (lower user)"
    and "list_all is_ascii_digit (spoken_digits (lower user))"
    and "int_max_str_digits cfg = 0
         \<or> length (spoken_digits (lower user)) \<le> int_max_str_digits cfg"
    and "decimal (spoken_digits (lower user)) < 2 ^ 1024 - 2 ^ 970"
  shows "(\<exists>d. float_add_int (clock_set i) (decimal (spoken_digits (lower user))) = Inr d
           \<and> commands cfg i mood user s =
               (Continues,
                speak cfg (''Timer set for '' @ str_int (decimal (spoken_digits (lower user)))
                             @ '' seconds.'')
                  (s\<lparr>timer_deadline := Some d, paused := False\<rparr>))
           \<and> (to_double (of_int (decimal (spoken_digits (lower user))))
                  = Finite (of_int (decimal (spoken_digits (lower user))))
                \<and> to_double (clock_set i + of_int (decimal (spoken_digits (lower user))))
                  = Finite (clock_set i + of_int (decimal (spoken_digits (lower user))))
               \<longrightarrow> d = Finite (clock_set i + of_int (decimal (spoken_digits (lower user))))))
       \<and> contains (str_int (decimal (spoken_digits (lower user))))
            (''Timer set for '' @ str_int (decimal (spoken_digits (lower user))) @ '' seconds.'')
       \<and> (filter isdigit (lower user) = [] \<longrightarrow> decimal (spoken_digits (lower user)) = 25)
       \<and> snd (snd (pass_with_timer cfg i (s0, t))) = t"
proof -
  let ?n = "decimal (spoken_digits (lower user))"
  have nm: "strip (lower user) \<noteq> ''mute''" "strip (lower user) \<noteq> ''unmute''"
    using start_timer_is_no_mute [OF assms(1)] by simp_all
  have p: "int_of_digits (int_max_str_digits cfg) (spoken_digits (lower user)) = Inr ?n"
    using assms(4,5) spoken_digits_nonempty [of "lower user"]
    by (auto simp: int_of_digits_def)
  have "0 \<le> ?n" using decimal_nonneg [OF assms(4)] .
  then obtain v where v: "to_double (of_int ?n) = Finite v"
    using int_to_double_finite [OF _ assms(6)] by blast
  then have a: "float_add_int (clock_set i) ?n = Inr (to_double (clock_set i + v))"
    by (simp add: float_add_int_def)
  have c: "commands cfg i mood user s =
           (Continues,
            speak cfg (''Timer set for '' @ str_int ?n @ '' seconds.'')
              (s\<lparr>timer_deadline := Some (to_double (clock_set i + v)), paused := False\<rparr>))"
    using assms(1,2,3) nm p a by (simp add: commands_def then_do_def Let_def)
  have x: "to_double (of_int ?n) = Finite (of_int ?n)
           \<and> to_double (clock_set i + of_int ?n) = Finite (clock_set i + of_int ?n)
           \<longrightarrow> to_double (clock_set i + v) = Finite (clock_set i + of_int ?n)"
    using v by auto
  have d: "contains (str_int ?n) (''Timer set for '' @ str_int ?n @ '' seconds.'')"
    by (rule contains_mid)
  have e: "filter isdigit (lower user) = [] \<longrightarrow> ?n = 25"
    by (simp add: spoken_digits_def decimal_def)
  show ?thesis using a c x d e pass_leaves_timer [of cfg i s0 t] by blast
qed

lemma ten_as_double: "to_double (of_int 10) = Finite 10"
  by code_simp

lemma clock_plus_ten: "to_double (1000 + 10) = Finite 1010"
  by code_simp

theorem start_timer_sets_deadline_witness:
  "startswith (lower ''Start timer 10'') ''start timer''
   \<and> \<not> contains ''quit'' (lower ''Start timer 10'')
   \<and> \<not> contains ''goodbye'' (lower ''Start timer 10'')
   \<and> list_all is_ascii_digit (spoken_digits (lower ''Start timer 10''))
   \<and> length (spoken_digits (lower ''Start timer 10'')) \<le> int_max_str_digits (session None)
   \<and> decimal (spoken_digits (lower ''Start timer 10'')) < 2 ^ 1024 - 2 ^ 970
   \<and> to_double (of_int 10) = Finite 10
   \<and> to_double (1000 + 10) = Finite 1010
   \<and> commands (session None) (heard_at ''Start timer 10'') None ''Start timer 10'' init_mirror
       = (Continues,
          init_mirror\<lparr>timer_deadline := Some (Finite 1010), paused := False,
            trace := [Console ''[TTS] Timer set for 10 seconds.'',
                      Audible ''Timer set for 10 seconds.'']\<rparr>)"
proof -
  have h1: "startswith (lower ''Start timer 10'') ''start timer''" by code_simp
  have h2: "\<not> contains ''quit'' (lower ''Start timer 10'')" by code_simp
  have h3: "\<not> contains ''goodbye'' (lower ''Start timer 10'')" by code_simp
  have h4: "list_all is_ascii_digit (spoken_digits (lower ''Start timer 10''))" by code_simp
  have h5: "length (spoken_digits (lower ''Start timer 10'')) \<le> int_max_str_digits (session None)"
    by code_simp
  have h5': "int_max_str_digits (session None) = 0
     \<or> length (spoken_digits (lower ''Start timer 10'')) \<le> int_max_str_digits (session None)"
    using h5 by simp
  have v: "decimal (spoken_digits (lower ''Start timer 10'')) = 10" by code_simp
  have h6: "decimal (spoken_digits (lower ''Start timer 10'')) < 2 ^ 1024 - 2 ^ 970"
    unfolding v by simp
  have s10: "str_int 10 = ''10''" by code_simp
  have e: "clock_set (heard_at ''Start timer 10'') = 1000" "have_say (session None)"
      "\<not> muted init_mirror" "trace init_mirror = []"
    by (simp_all add: heard_at_def session_def init_mirror_def)
  have fa: "float_add_int 1000 10 = Inr (Finite 1010)"
    using ten_as_double clock_plus_ten by (simp add: float_add_int_def)
  show ?thesis
    using h1 h2 h3 h4 h5 h6 e fa ten_as_double clock_plus_ten
      start_timer_sets_deadline [OF h1 h2 h3 h4 h5' h6, of "heard_at ''Start timer 10''" None
        init_mirror init_mirror "init True True True"]
    by (auto simp: v s10 speak_def say_def console_def)
qed

text \<open>
  C3, as the claim states it, fails at its own example: after \<^verbatim>\<open>start timer 10\<close> the
  loop holds a deadline ten seconds ahead, but a countdown timer of the process is not
  running, its phase is idle and its seconds left are 0, not 10. It also fails for other
  utterances that start with \<^verbatim>\<open>start timer\<close>: one that holds \<^verbatim>\<open>quit\<close> ends the
  session, since that test comes first, and one whose only digit is a superscript two
  makes \<^verbatim>\<open>int\<close> raise, so that the loop speaks \<^verbatim>\<open>Couldn't set the timer.\<close>
\<close>

theorem start_timer_counterexample:
  "pass_with_timer (session None) (heard_at ''start timer 10'') (init_mirror, init True True True)
     = (Continues,
        init_mirror\<lparr>timer_deadline := Some (Finite 1010), paused := False,
          trace := [Console ''[TTS] Say something! (Speak clearly for ~5 seconds...)'',
                    Audible ''Say something! (Speak clearly for ~5 seconds...)'',
                    Console ''[VOICE] Recognized: start timer 10'',
                    Console ''[TTS] Timer set for 10 seconds.'',
                    Audible ''Timer set for 10 seconds.'']\<rparr>,
        init True True True)
   \<and> \<not> is_running (snd (snd (pass_with_timer (session None) (heard_at ''start timer 10'')
                                (init_mirror, init True True True))))
   \<and> f_phase (snd (snd (pass_with_timer (session None) (heard_at ''start timer 10'')
                            (init_mirror, init True True True)))) = Idle
   \<and> f_remaining (snd (snd (pass_with_timer (session None) (heard_at ''start timer 10'')
                                (init_mirror, init True True True)))) = 0
   \<and> startswith (lower ''start timer quit'') ''start timer''
   \<and> commands (session None) (heard_at ''start timer quit'') None ''start timer quit'' init_mirror
       = (Breaks, init_mirror\<lparr>trace := [Console ''[TTS] Goodbye.'', Audible ''Goodbye.'']\<rparr>)
   \<and> startswith (lower (''start timer '' @ [CHR 0xB2])) ''start timer''
   \<and> commands (session None) (heard_at (''start timer '' @ [CHR 0xB2])) None
        (''start timer '' @ [CHR 0xB2]) init_mirror
       = (Continues, init_mirror\<lparr>trace := [Console ''[TTS] Couldn't set the timer.'',
                                             Audible ''Couldn't set the timer.'']\<rparr>)
   \<and> timer_deadline init_mirror = None"
  by code_simp

text \<open>
  C2. With a reply collaborator that raises TypeError on every call, the pass that hears
  \<^verbatim>\<open>what time is it\<close> does not reach the offline answer: the handler of the first
  TypeError calls the collaborator again outside any \<^verbatim>\<open>try\<close>, the second exception
  leaves the loop, and nothing is spoken in reply. The session is over: later utterances
  are not processed.
\<close>

theorem reply_retry_escapes_loop:
  "iteration (session (Some (raising TypeError))) (heard_at ''what time is it'') init_mirror
     = (Raises TypeError,
        init_mirror\<lparr>trace := [Console ''[TTS] Say something! (Speak clearly for ~5 seconds...)'',
                                Audible ''Say something! (Speak clearly for ~5 seconds...)'',
                                Console ''[VOICE] Recognized: what time is it'']\<rparr>)
   \<and> fst (run (session (Some (raising TypeError)))
            [heard_at ''what time is it'', heard_at ''hello''] init_mirror) = Raises TypeError"
  by code_simp

text \<open>
  What does hold: an exception of the first call other than TypeError is caught, and the
  question about the time is then answered offline with the wall clock, digits included.
\<close>

lemma first_call_failure_caught:
  assumes "ai cfg = Some r" and "reply_ctx r history user = Inl e" and "e \<noteq> TypeError"
  shows "ask_ai cfg history user = Inr None"
  using assms by (cases e) (simp_all add: ask_ai_def)

lemma pad2_digit: "is_ascii_digit (hd (pad2 n))"
proof -
  have "\<forall>k\<in>set [0..<10]. is_ascii_digit (''0123456789'' ! k)" by code_simp
  moreover have "n div 10 mod 10 \<in> set [0..<10]" by simp
  ultimately show ?thesis unfolding pad2_def by (metis list.sel(1))
qed

lemma time_question_offline:
  assumes "ask_ai cfg (ctx_hist s) ''what time is it'' = Inr None"
  shows "commands cfg i mood ''what time is it'' s =
           (Continues,
            speak cfg (''It's '' @ strftime_HM (wall_clock i) @ ''.'')
              (s\<lparr>ctx_hist := deque_append 12 (''It's '' @ strftime_HM (wall_clock i) @ ''.'')
                                (deque_append 12 ''what time is it'' (ctx_hist s))\<rparr>))
       \<and> (\<exists>c\<in>set (''It's '' @ strftime_HM (wall_clock i) @ ''.''). is_ascii_digit c)"
proof -
  have l: "lower ''what time is it'' = ''what time is it''"
    and st: "strip ''what time is it'' = ''what time is it''" by code_simp+
  have no: "\<not> contains ''quit'' ''what time is it''" "\<not> contains ''goodbye'' ''what time is it''"
     "\<not> startswith ''what time is it'' ''start timer''"
     "\<not> contains ''pause timer'' ''what time is it''"
     "\<not> contains ''resume timer'' ''what time is it''"
     "\<not> contains ''status'' ''what time is it''"
     "\<not> contains ''weather'' ''what time is it''"
     "\<not> contains ''temperature'' ''what time is it''"
     "contains ''time'' ''what time is it''"
    by code_simp+
  have off: "offline_answer i ''what time is it'' mood = ''It's '' @ strftime_HM (wall_clock i) @ ''.''"
    unfolding offline_answer_def l st Let_def using no by simp
  have a: "commands cfg i mood ''what time is it'' s =
           (Continues,
            speak cfg (''It's '' @ strftime_HM (wall_clock i) @ ''.'')
              (s\<lparr>ctx_hist := deque_append 12 (''It's '' @ strftime_HM (wall_clock i) @ ''.'')
                                (deque_append 12 ''what time is it'' (ctx_hist s))\<rparr>))"
    unfolding commands_def l st Let_def converse_def assms off using no by simp
  have "hd (pad2 (fst (wall_clock i))) \<in> set (''It's '' @ strftime_HM (wall_clock i) @ ''.'')"
    by (simp add: strftime_HM_def pad2_def)
  then have b: "\<exists>c\<in>set (''It's '' @ strftime_HM (wall_clock i) @ ''.''). is_ascii_digit c"
    using pad2_digit by blast
  show ?thesis using a b by blast
qed

lemma camera_failure_escapes_loop:
  assumes "have_cap cfg" and "cam i = ReadError e"
  shows "iteration cfg i s = (Raises e, s)"
  using assms by (simp add: iteration_def sense_def)

end
